theory Spec2Isabelle
  imports Main "HOL-Library.Sublist"
begin

section \<open>Python strings\<close>

text \<open>
  A Python \<open>str\<close> is a sequence of Unicode code points.  A code point is a natural
  number here, so that the full-width punctuation of the repair table (beyond one byte)
  is one element of the list, as it is one element of the Python string.
\<close>

type_synonym pystr = "nat list"

abbreviation cp :: "char \<Rightarrow> nat" where
  "cp \<equiv> of_char"

definition ascii :: "string \<Rightarrow> pystr" where
  [simp]: "ascii = map of_char"

text \<open>
  \<open>str.isspace\<close>, which is also the class \<open>\s\<close> of \<open>re\<close> on \<open>str\<close> patterns:
  the table of CPython's \<open>_PyUnicode_IsWhitespace\<close>.
\<close>

definition isspace :: "nat \<Rightarrow> bool" where
  "isspace c = ((9 \<le> c \<and> c \<le> 13) \<or> (28 \<le> c \<and> c \<le> 32) \<or> c = 133 \<or> c = 160
     \<or> c = 5760 \<or> (8192 \<le> c \<and> c \<le> 8202) \<or> c = 8232 \<or> c = 8233 \<or> c = 8239
     \<or> c = 8287 \<or> c = 12288)"

definition py_strip :: "pystr \<Rightarrow> pystr" where
  "py_strip s = rev (dropWhile isspace (rev (dropWhile isspace s)))"

definition startswith :: "pystr \<Rightarrow> nat \<Rightarrow> bool" where
  "startswith s c = (case s of [] \<Rightarrow> False | d # _ \<Rightarrow> d = c)"

definition endswith :: "pystr \<Rightarrow> nat \<Rightarrow> bool" where
  "endswith s c = (case rev s of [] \<Rightarrow> False | d # _ \<Rightarrow> d = c)"

text \<open>The slice \<open>s[1:-1]\<close>: from index 1 to index \<open>len(s) - 1\<close>, empty when they cross.\<close>

definition slice_1_m1 :: "pystr \<Rightarrow> pystr" where
  "slice_1_m1 s = drop 1 (take (length s - 1) s)"

text \<open>
  \<open>str.replace(old, new)\<close>: the occurrences of \<open>old\<close> are found from the left and do
  not overlap.  An empty \<open>old\<close> matches before every character and at the end.
\<close>

function py_replace :: "pystr \<Rightarrow> pystr \<Rightarrow> pystr \<Rightarrow> pystr" where
  "py_replace old new [] = (if old = [] then new else [])"
| "py_replace old new (c # cs) =
     (if old = [] then new @ c # py_replace old new cs
      else if prefix old (c # cs) then new @ py_replace old new (drop (length old) (c # cs))
      else c # py_replace old new cs)"
  by pat_completeness auto
termination
  by (relation "measure (\<lambda>(old, new, s). length s)") auto

text \<open>The decimal digits of a number, as \<open>str(n)\<close> and an f-string write it.\<close>

fun str_of_nat :: "nat \<Rightarrow> pystr" where
  "str_of_nat n = (if n < 10 then [48 + n] else str_of_nat (n div 10) @ [48 + n mod 10])"

declare str_of_nat.simps [simp del]

section \<open>The character classes of \<open>re\<close>\<close>

text \<open>
  On a \<open>str\<close> pattern \<open>\d\<close> is \<open>Py_UNICODE_ISDECIMAL\<close> and \<open>\w\<close> is
  \<open>Py_UNICODE_ISALNUM\<close> or the underscore.  Below U+0080 both are fixed.  From U+0080 on
  they are read from the Unicode database of the interpreter, which is a parameter of the
  model.  No whitespace code point is a letter or a digit in the database; the table is
  consulted for \<open>\w\<close> only outside whitespace, so that the two classes are disjoint
  for every value of the parameter.
\<close>

record ucd =
  ucd_decimal :: "nat \<Rightarrow> bool"
  ucd_alnum :: "nat \<Rightarrow> bool"

definition is_decimal :: "ucd \<Rightarrow> nat \<Rightarrow> bool" where
  "is_decimal db c = (if c < 128 then 48 \<le> c \<and> c \<le> 57 else ucd_decimal db c)"

definition is_word :: "ucd \<Rightarrow> nat \<Rightarrow> bool" where
  "is_word db c =
     (if c < 128 then (48 \<le> c \<and> c \<le> 57) \<or> (65 \<le> c \<and> c \<le> 90) \<or> c = 95 \<or> (97 \<le> c \<and> c \<le> 122)
      else ucd_alnum db c \<and> \<not> isspace c)"

text \<open>
  A table that marks no code point from U+0080 on.  It agrees with the Unicode database on
  every text whose code points from U+0080 on are neither letters nor digits.
\<close>

definition ucd_ascii :: ucd where
  "ucd_ascii = \<lparr>ucd_decimal = (\<lambda>c. False), ucd_alnum = (\<lambda>c. False)\<rparr>"

section \<open>Step 1: cleaning (lines 21 to 29)\<close>

definition TextNormalizer :: "pystr \<Rightarrow> pystr" where
  "TextNormalizer raw_json_str =
     (let cleaned_str = py_strip raw_json_str;
          cleaned_str = (if startswith cleaned_str 34 \<and> endswith cleaned_str 34
                         then slice_1_m1 cleaned_str else cleaned_str)
      in py_strip cleaned_str)"

section \<open>Step 2: escapes and full-width punctuation (lines 32 to 39)\<close>

text \<open>
  \<open>re.sub(r'\\(\d)', r'\\n\1', s)\<close>: a backslash and a decimal digit become a backslash,
  the letter n and that digit.  Matches are taken from the left and do not overlap.
\<close>

fun sub_backslash_digit :: "ucd \<Rightarrow> pystr \<Rightarrow> pystr" where
  "sub_backslash_digit db (b # d # cs) =
     (if b = 92 \<and> is_decimal db d then 92 # 110 # d # sub_backslash_digit db cs
      else b # sub_backslash_digit db (d # cs))"
| "sub_backslash_digit db cs = cs"

definition EscapeRepairer :: "ucd \<Rightarrow> pystr \<Rightarrow> pystr" where
  "EscapeRepairer db cleaned_str =
     (let fix_str = cleaned_str;
          fix_str = py_replace [92, 92, 116] [92, 116] (py_replace [92, 92, 110] [92, 110] fix_str);
          fix_str = sub_backslash_digit db fix_str;
          fix_str = py_replace [8220] [34] (py_replace [8221] [34]
                      (py_replace [65292] [44] (py_replace [65306] [58] fix_str)));
          fix_str = py_replace [65289] [41] (py_replace [65288] [40]
                      (py_replace [12290] [46] (py_replace [65307] [59] fix_str)))
      in fix_str)"

section \<open>Step 3: structural repairs (lines 43 to 48)\<close>

text \<open>
  \<open>re.sub(r',\s*}', '}', s)\<close> and \<open>re.sub(r',\s*]', ']', s)\<close>, with the closing character
  as \<open>cl\<close>: a comma, any whitespace and the closing character become the closing
  character.  \<open>\s*\<close> is greedy, and the closing character is no whitespace, so the match
  at a comma is decided by the first character after the whitespace.
\<close>

function sub_trailing_comma :: "nat \<Rightarrow> pystr \<Rightarrow> pystr" where
  "sub_trailing_comma cl [] = []"
| "sub_trailing_comma cl (c # cs) =
     (if c = 44 \<and> startswith (dropWhile isspace cs) cl
      then cl # sub_trailing_comma cl (tl (dropWhile isspace cs))
      else c # sub_trailing_comma cl cs)"
  by pat_completeness auto
termination
proof (relation "measure (\<lambda>(cl, s). length s)")
  fix cl c :: nat and cs :: pystr
  have "length (tl (dropWhile isspace cs)) \<le> length cs"
    using length_dropWhile_le [of isspace cs] by simp
  then show "((cl, tl (dropWhile isspace cs)), (cl, c # cs)) \<in> measure (\<lambda>(cl, s). length s)"
    by simp
qed auto

text \<open>
  \<open>re.sub(r'([{,]\s*)(\w+)(\s*:)', r'\1"\2"\3', s)\<close>: after an opening brace or a comma,
  whitespace, a run of word characters, whitespace and a colon; the run is put in double
  quotes.  The classes \<open>\s\<close> and \<open>\w\<close> are disjoint and the colon is in neither, so
  the greedy runs are the only way to match.
\<close>

function sub_bare_key :: "ucd \<Rightarrow> pystr \<Rightarrow> pystr" where
  "sub_bare_key db [] = []"
| "sub_bare_key db (c # cs) =
     (if (c = 123 \<or> c = 44)
         \<and> takeWhile (is_word db) (dropWhile isspace cs) \<noteq> []
         \<and> startswith (dropWhile isspace (dropWhile (is_word db) (dropWhile isspace cs))) 58
      then c # takeWhile isspace cs
             @ [34] @ takeWhile (is_word db) (dropWhile isspace cs) @ [34]
             @ takeWhile isspace (dropWhile (is_word db) (dropWhile isspace cs))
             @ [58]
             @ sub_bare_key db (tl (dropWhile isspace (dropWhile (is_word db) (dropWhile isspace cs))))
      else c # sub_bare_key db cs)"
  by pat_completeness auto
termination
proof (relation "measure (\<lambda>(db, s). length s)")
  fix db :: ucd and c :: nat and cs :: pystr
  have "length (dropWhile isspace (dropWhile (is_word db) (dropWhile isspace cs))) \<le> length cs"
    using length_dropWhile_le [of isspace cs]
      length_dropWhile_le [of "is_word db" "dropWhile isspace cs"]
      length_dropWhile_le [of isspace "dropWhile (is_word db) (dropWhile isspace cs)"]
    by linarith
  then show "((db, tl (dropWhile isspace (dropWhile (is_word db) (dropWhile isspace cs)))), (db, c # cs))
      \<in> measure (\<lambda>(db, s). length s)"
    by simp
qed auto

text \<open>
  \<open>re.sub(r"(?<!\\)'", '"', s)\<close>: every single quote that no backslash precedes becomes a
  double quote.  \<open>esc\<close> says whether the character before is a backslash.
\<close>

fun sub_single_quote :: "bool \<Rightarrow> pystr \<Rightarrow> pystr" where
  "sub_single_quote esc [] = []"
| "sub_single_quote esc (c # cs) =
     (if c = 39 \<and> \<not> esc then 34 else c) # sub_single_quote (c = 92) cs"

definition StructuralRepairer :: "ucd \<Rightarrow> pystr \<Rightarrow> pystr" where
  "StructuralRepairer db fix_str =
     (let fix_str = sub_trailing_comma 125 fix_str;
          fix_str = sub_trailing_comma 93 fix_str;
          fix_str = sub_bare_key db fix_str;
          fix_str = sub_single_quote False fix_str
      in fix_str)"

section \<open>JSON values and \<open>json.loads\<close>\<close>

text \<open>
  The values \<open>json.loads\<close> builds: \<open>None\<close>, \<open>bool\<close>, \<open>int\<close>, \<open>float\<close>, \<open>str\<close>,
  \<open>list\<close> and \<open>dict\<close>.  A \<open>float\<close> is kept as the text it is read from
  (\<open>float(text)\<close>), which includes \<open>NaN\<close>, \<open>Infinity\<close> and \<open>-Infinity\<close>.  A \<open>dict\<close> is
  the list of its items in insertion order, with distinct keys.
\<close>

datatype json =
    JNull
  | JBool bool
  | JInt int
  | JFloat pystr
  | JString pystr
  | JArray "json list"
  | JObject "(pystr \<times> json) list"

text \<open>\<open>d[k] = v\<close>: a key already present keeps its place and takes the new value.\<close>

fun dict_set :: "(pystr \<times> json) list \<Rightarrow> pystr \<Rightarrow> json \<Rightarrow> (pystr \<times> json) list" where
  "dict_set [] k v = [(k, v)]"
| "dict_set ((k', v') # d) k v = (if k' = k then (k, v) # d else (k', v') # dict_set d k v)"

text \<open>
  \<open>json.JSONDecodeError(msg, doc, pos)\<close>: the constructor computes the line and the
  column of \<open>pos\<close> in \<open>doc\<close>.
\<close>

record json_decode_error =
  err_msg :: pystr
  err_doc :: pystr
  err_pos :: nat
  err_lineno :: nat
  err_colno :: nat

text \<open>\<open>doc.rfind('\n', 0, pos)\<close>: the last index of a newline before \<open>pos\<close>, or \<open>-1\<close>.\<close>

definition rfind_newline :: "pystr \<Rightarrow> nat \<Rightarrow> int" where
  "rfind_newline doc pos =
     (let pre = take pos doc; k = length (takeWhile (\<lambda>c. c \<noteq> 10) (rev pre))
      in if k = length pre then - 1 else int (length pre) - 1 - int k)"

definition JSONDecodeError :: "pystr \<Rightarrow> pystr \<Rightarrow> nat \<Rightarrow> json_decode_error" where
  "JSONDecodeError msg doc pos =
     \<lparr>err_msg = msg, err_doc = doc, err_pos = pos,
      err_lineno = count_list (take pos doc) 10 + 1,
      err_colno = nat (int pos - rfind_newline doc pos)\<rparr>"

text \<open>
  What \<open>process_json_string\<close> can raise: the \<open>ValueError\<close> of line 29, the
  \<open>JSONDecodeError\<close> of line 61, the \<open>ValueError\<close>s of lines 67 and 74 with the lists
  they print, and the errors the interpreter raises in lines 52, 65, 71 and 72.
\<close>

datatype error =
    EmptyInputError
  | JsonDecodeError json_decode_error
  | MissingFieldError "pystr list"
  | MissingRubricFieldError "pystr list"
  | TypeError
  | AttributeError
  | RecursionError

text \<open>
  The decoder is the one \<open>json.loads\<close> runs in CPython (the scanner of \<open>_json\<close>, with
  the messages of Python 3.11).  Its functions read a suffix of the document and return
  the value with the rest of the suffix.  A failure holds the number of characters from
  the place of the error to the end of the document; \<open>json_loads\<close> turns it into the
  position.  \<open>StopIteration\<close> is what the scanner raises where no value starts.
\<close>

datatype scan_fail =
    Errmsg pystr nat
  | StopIteration nat
  | NoFuel

definition is_json_ws :: "nat \<Rightarrow> bool" where
  "is_json_ws c = (c = 32 \<or> c = 9 \<or> c = 10 \<or> c = 13)"

abbreviation skip_ws :: "pystr \<Rightarrow> pystr" where
  "skip_ws \<equiv> dropWhile is_json_ws"

definition is_digit :: "nat \<Rightarrow> bool" where
  "is_digit c = (48 \<le> c \<and> c \<le> 57)"

definition hex_val :: "nat \<Rightarrow> nat option" where
  "hex_val c =
     (if 48 \<le> c \<and> c \<le> 57 then Some (c - 48)
      else if 97 \<le> c \<and> c \<le> 102 then Some (c - 87)
      else if 65 \<le> c \<and> c \<le> 70 then Some (c - 55)
      else None)"

text \<open>
  The four hexadecimal digits of a \<open>\uXXXX\<close> escape.  The scanner wants a character
  after them: an escape that ends the document is refused as invalid.
\<close>

definition hex4 :: "pystr \<Rightarrow> nat option" where
  "hex4 cs =
     (case cs of
        a # b # c # d # _ # _ \<Rightarrow>
          (case (hex_val a, hex_val b, hex_val c, hex_val d) of
             (Some x, Some y, Some z, Some w) \<Rightarrow> Some (((x * 16 + y) * 16 + z) * 16 + w)
           | _ \<Rightarrow> None)
      | _ \<Rightarrow> None)"

definition backslash :: "nat \<Rightarrow> nat option" where
  "backslash c =
     (if c = 34 then Some 34 else if c = 92 then Some 92 else if c = 47 then Some 47
      else if c = 98 then Some 8 else if c = 102 then Some 12 else if c = 110 then Some 10
      else if c = 114 then Some 13 else if c = 116 then Some 9 else None)"

definition cons_char :: "nat \<Rightarrow> scan_fail + (pystr \<times> pystr) \<Rightarrow> scan_fail + (pystr \<times> pystr)" where
  "cons_char c r = (case r of Inl e \<Rightarrow> Inl e | Inr (s, rest) \<Rightarrow> Inr (c # s, rest))"

text \<open>
  \<open>scanstring\<close> reads a string literal after its opening quote.  \<open>begin\<close> is the number
  of characters from the opening quote to the end of the document.
\<close>

function scanstring :: "nat \<Rightarrow> pystr \<Rightarrow> scan_fail + (pystr \<times> pystr)" where
  "scanstring begin [] = Inl (Errmsg (ascii ''Unterminated string starting at'') begin)"
| "scanstring begin (c # cs) =
     (if c = 34 then Inr ([], cs)
      else if c = 92 then
        (case cs of
           [] \<Rightarrow> Inl (Errmsg (ascii ''Unterminated string starting at'') begin)
         | e # r \<Rightarrow>
             if e = 117 then
               (case hex4 r of
                  None \<Rightarrow> Inl (Errmsg (ascii ''Invalid '' @ [92] @ ascii ''uXXXX escape'') (length cs))
                | Some u \<Rightarrow>
                    if 55296 \<le> u \<and> u \<le> 56319 \<and> take 2 (drop 4 r) = [92, 117] then
                      (case hex4 (drop 6 r) of
                         None \<Rightarrow> Inl (Errmsg (ascii ''Invalid '' @ [92] @ ascii ''uXXXX escape'')
                                   (length (drop 5 r)))
                       | Some u2 \<Rightarrow>
                           if 56320 \<le> u2 \<and> u2 \<le> 57343
                           then cons_char (65536 + (u - 55296) * 1024 + (u2 - 56320))
                                  (scanstring begin (drop 10 r))
                           else cons_char u (scanstring begin (drop 4 r)))
                    else cons_char u (scanstring begin (drop 4 r)))
             else
               (case backslash e of
                  None \<Rightarrow> Inl (Errmsg (ascii ''Invalid '' @ [92] @ ascii ''escape'') (length (c # cs)))
                | Some ch \<Rightarrow> cons_char ch (scanstring begin r)))
      else if c \<le> 31 then Inl (Errmsg (ascii ''Invalid control character at'') (length (c # cs)))
      else cons_char c (scanstring begin cs))"
  by pat_completeness auto
termination
  by (relation "measure (\<lambda>(b, s). length s)") auto

text \<open>\<open>int(text)\<close> for a run of decimal digits.\<close>

definition int_of_digits :: "pystr \<Rightarrow> int" where
  "int_of_digits ds = foldl (\<lambda>acc d. acc * 10 + (int d - 48)) 0 ds"

text \<open>
  A number: \<open>-?(0|[1-9][0-9]*)(\.[0-9]+)?([eE][-+]?[0-9]+)?\<close>, the longest match.  With a
  fraction or an exponent it is a \<open>float\<close>, otherwise an \<open>int\<close>.
\<close>

definition match_int_part :: "pystr \<Rightarrow> (pystr \<times> pystr) option" where
  "match_int_part cs =
     (case cs of
        [] \<Rightarrow> None
      | d # r \<Rightarrow>
          if 49 \<le> d \<and> d \<le> 57 then Some (d # takeWhile is_digit r, dropWhile is_digit r)
          else if d = 48 then Some ([48], r)
          else None)"

definition match_frac :: "pystr \<Rightarrow> pystr \<times> pystr" where
  "match_frac cs =
     (case cs of
        p # d # r \<Rightarrow>
          if p = 46 \<and> is_digit d then (p # d # takeWhile is_digit r, dropWhile is_digit r)
          else ([], cs)
      | _ \<Rightarrow> ([], cs))"

definition match_exp :: "pystr \<Rightarrow> pystr \<times> pystr" where
  "match_exp cs =
     (case cs of
        [] \<Rightarrow> ([], cs)
      | e # r \<Rightarrow>
          if e = 101 \<or> e = 69 then
            (let sign = (if startswith r 43 \<or> startswith r 45 then take 1 r else []);
                 r' = drop (length sign) r
             in if takeWhile is_digit r' = [] then ([], cs)
                else (e # sign @ takeWhile is_digit r', dropWhile is_digit r'))
          else ([], cs))"

definition match_number :: "pystr \<Rightarrow> (json \<times> pystr) option" where
  "match_number cs =
     (let neg = startswith cs 45 in
      case match_int_part (if neg then tl cs else cs) of
        None \<Rightarrow> None
      | Some (ds, r1) \<Rightarrow>
          (let (frac, r2) = match_frac r1; (ex, r3) = match_exp r2 in
           if frac = [] \<and> ex = []
           then Some (JInt (if neg then - int_of_digits ds else int_of_digits ds), r3)
           else Some (JFloat ((if neg then [45] else []) @ ds @ frac @ ex), r3)))"

text \<open>
  The values that are neither a string, an object nor an array: the three literals, the
  three constants of \<open>float\<close>, and the numbers.  Where none starts the scanner raises
  \<open>StopIteration\<close>.
\<close>

definition scan_atom :: "pystr \<Rightarrow> scan_fail + (json \<times> pystr)" where
  "scan_atom cs =
     (if prefix (ascii ''null'') cs then Inr (JNull, drop 4 cs)
      else if prefix (ascii ''true'') cs then Inr (JBool True, drop 4 cs)
      else if prefix (ascii ''false'') cs then Inr (JBool False, drop 5 cs)
      else if prefix (ascii ''NaN'') cs then Inr (JFloat (ascii ''NaN''), drop 3 cs)
      else if prefix (ascii ''Infinity'') cs then Inr (JFloat (ascii ''Infinity''), drop 8 cs)
      else if prefix (ascii ''-Infinity'') cs then Inr (JFloat (ascii ''-Infinity''), drop 9 cs)
      else
        (case match_number cs of
           None \<Rightarrow> Inl (StopIteration (length cs))
         | Some (v, r') \<Rightarrow> Inr (v, r')))"

text \<open>
  \<open>scan_once\<close> reads one value; \<open>JSONObject\<close> and \<open>JSONArray\<close> are the loops over the
  items of an object and of an array, entered after the opening character and the
  whitespace behind it.  Every call takes one unit of fuel; \<open>json_loads\<close> gives enough
  for every document (lemma \<open>json_loads_fuel\<close>).  The limits of the interpreter are
  not part of the model: its stack is taken as deep enough for every nesting, and \<open>int\<close>
  reads a run of digits of any length.
\<close>

fun scan_once :: "nat \<Rightarrow> pystr \<Rightarrow> scan_fail + (json \<times> pystr)"
  and JSONObject :: "nat \<Rightarrow> (pystr \<times> json) list \<Rightarrow> pystr \<Rightarrow> scan_fail + (json \<times> pystr)"
  and JSONArray :: "nat \<Rightarrow> json list \<Rightarrow> pystr \<Rightarrow> scan_fail + (json \<times> pystr)" where
  "scan_once 0 cs = Inl NoFuel"
| "scan_once (Suc n) cs =
     (case cs of
        [] \<Rightarrow> Inl (StopIteration 0)
      | c # r \<Rightarrow>
          if c = 34 then
            (case scanstring (length cs) r of
               Inl e \<Rightarrow> Inl e
             | Inr (s, r') \<Rightarrow> Inr (JString s, r'))
          else if c = 123 then
            (if startswith (skip_ws r) 125 then Inr (JObject [], tl (skip_ws r))
             else JSONObject n [] (skip_ws r))
          else if c = 91 then
            (if startswith (skip_ws r) 93 then Inr (JArray [], tl (skip_ws r))
             else JSONArray n [] (skip_ws r))
          else scan_atom cs)"
| "JSONObject 0 acc cs = Inl NoFuel"
| "JSONObject (Suc n) acc cs =
     (if \<not> startswith cs 34
      then Inl (Errmsg (ascii ''Expecting property name enclosed in double quotes'') (length cs))
      else
        (case scanstring (length cs) (tl cs) of
           Inl e \<Rightarrow> Inl e
         | Inr (key, r1) \<Rightarrow>
             if \<not> startswith (skip_ws r1) 58
             then Inl (Errmsg (ascii ''Expecting ':' delimiter'') (length (skip_ws r1)))
             else
               (case scan_once n (skip_ws (tl (skip_ws r1))) of
                  Inl e \<Rightarrow> Inl e
                | Inr (val, r2) \<Rightarrow>
                    if startswith (skip_ws r2) 125
                    then Inr (JObject (dict_set acc key val), tl (skip_ws r2))
                    else if \<not> startswith (skip_ws r2) 44
                    then Inl (Errmsg (ascii ''Expecting ',' delimiter'') (length (skip_ws r2)))
                    else JSONObject n (dict_set acc key val) (skip_ws (tl (skip_ws r2))))))"
| "JSONArray 0 acc cs = Inl NoFuel"
| "JSONArray (Suc n) acc cs =
     (case scan_once n cs of
        Inl e \<Rightarrow> Inl e
      | Inr (val, r1) \<Rightarrow>
          if startswith (skip_ws r1) 93
          then Inr (JArray (acc @ [val]), tl (skip_ws r1))
          else if \<not> startswith (skip_ws r1) 44
          then Inl (Errmsg (ascii ''Expecting ',' delimiter'') (length (skip_ws r1)))
          else JSONArray n (acc @ [val]) (skip_ws (tl (skip_ws r1))))"

text \<open>Two units of fuel for every character of the document, and one more.\<close>

fun fuel_for :: "pystr \<Rightarrow> nat" where
  "fuel_for [] = Suc 0"
| "fuel_for (c # cs) = Suc (Suc (fuel_for cs))"

definition json_loads :: "pystr \<Rightarrow> error + json" where
  "json_loads s =
     (if startswith s 65279
      then Inl (JsonDecodeError
                 (JSONDecodeError (ascii ''Unexpected UTF-8 BOM (decode using utf-8-sig)'') s 0))
      else
        (case scan_once (fuel_for s) (skip_ws s) of
           Inl (Errmsg m k) \<Rightarrow> Inl (JsonDecodeError (JSONDecodeError m s (length s - k)))
         | Inl (StopIteration k) \<Rightarrow>
             Inl (JsonDecodeError (JSONDecodeError (ascii ''Expecting value'') s (length s - k)))
         | Inl NoFuel \<Rightarrow> Inl RecursionError
         | Inr (obj, r) \<Rightarrow>
             if skip_ws r = [] then Inr obj
             else Inl (JsonDecodeError
                        (JSONDecodeError (ascii ''Extra data'') s (length s - length (skip_ws r))))))"

section \<open>Steps 4 and 5: decoding and the required fields (lines 51 to 76)\<close>

text \<open>
  \<open>f in data\<close>: a key of a \<open>dict\<close>, an element of a \<open>list\<close>, a substring of a
  \<open>str\<close>; the other values are no containers and raise \<open>TypeError\<close>.
\<close>

fun py_in :: "pystr \<Rightarrow> json \<Rightarrow> error + bool" where
  "py_in f (JObject kvs) = Inr (f \<in> set (map fst kvs))"
| "py_in f (JArray xs) = Inr (JString f \<in> set xs)"
| "py_in f (JString t) = Inr (sublist f t)"
| "py_in f v = Inl TypeError"

text \<open>The comprehension \<open>[f for f in fields if f not in data]\<close>.\<close>

fun missing_of :: "pystr list \<Rightarrow> json \<Rightarrow> error + pystr list" where
  "missing_of [] data = Inr []"
| "missing_of (f # fs) data =
     (case py_in f data of
        Inl e \<Rightarrow> Inl e
      | Inr b \<Rightarrow>
          (case missing_of fs data of
             Inl e \<Rightarrow> Inl e
           | Inr ms \<Rightarrow> Inr (if b then ms else f # ms)))"

text \<open>\<open>data.get(k, default)\<close>: only a \<open>dict\<close> has the method.\<close>

fun py_get :: "json \<Rightarrow> pystr \<Rightarrow> json \<Rightarrow> error + json" where
  "py_get (JObject kvs) k dflt = Inr (case map_of kvs k of None \<Rightarrow> dflt | Some v \<Rightarrow> v)"
| "py_get v k dflt = Inl AttributeError"

definition required_fields :: "pystr list" where
  "required_fields = [ascii ''generation_prompt'', ascii ''evaluation_rubic'', ascii ''manual'']"

definition rubic_fields :: "pystr list" where
  "rubic_fields = [ascii ''pc_rubic'', ascii ''cmp_rubic'', ascii ''slr_rubic'',
     ascii ''clr_rubic'', ascii ''ri_rubic'']"

definition SchemaValidator :: "json \<Rightarrow> error + json" where
  "SchemaValidator json_data =
     (case missing_of required_fields json_data of
        Inl e \<Rightarrow> Inl e
      | Inr missing_fields \<Rightarrow>
          if missing_fields \<noteq> [] then Inl (MissingFieldError missing_fields)
          else
            (case py_get json_data (ascii ''evaluation_rubic'') (JObject []) of
               Inl e \<Rightarrow> Inl e
             | Inr rubic_data \<Rightarrow>
                 (case missing_of rubic_fields rubic_data of
                    Inl e \<Rightarrow> Inl e
                  | Inr missing_rubic \<Rightarrow>
                      if missing_rubic \<noteq> [] then Inl (MissingRubricFieldError missing_rubic)
                      else Inr json_data)))"

text \<open>
  The message of line 55 to 60, with the line, the column and the position of the decode
  error in decimal, its reason, and the first 500 characters of the repaired string.
\<close>

definition error_msg :: "json_decode_error \<Rightarrow> pystr \<Rightarrow> pystr" where
  "error_msg e fix_str =
     [74, 83, 79, 78, 35299, 26512, 22833, 36133, 65281, 10]
     @ [38169, 35823, 20301, 32622, 65306, 34892] @ str_of_nat (err_lineno e)
     @ [65292, 21015] @ str_of_nat (err_colno e)
     @ [65288, 23383, 31526, 20301, 32622] @ str_of_nat (err_pos e) @ [65289, 10]
     @ [38169, 35823, 21407, 22240, 65306] @ err_msg e @ [10]
     @ [20462, 22797, 21518, 30340, 23383, 31526, 20018, 21069, 53, 48, 48, 23383, 31526, 65306, 10]
     @ take 500 fix_str @ ascii ''...''"

definition Parser :: "pystr \<Rightarrow> error + json" where
  "Parser fix_str =
     (case json_loads fix_str of
        Inl (JsonDecodeError e) \<Rightarrow>
          Inl (JsonDecodeError (JSONDecodeError (error_msg e fix_str) (err_doc e) (err_pos e)))
      | Inl other \<Rightarrow> Inl other
      | Inr json_data \<Rightarrow> Inr json_data)"

definition process_json_string :: "ucd \<Rightarrow> pystr \<Rightarrow> error + json" where
  "process_json_string db raw_json_str =
     (let cleaned_str = TextNormalizer raw_json_str in
      if cleaned_str = [] then Inl EmptyInputError
      else
        (let fix_str = StructuralRepairer db (EscapeRepairer db cleaned_str) in
         case Parser fix_str of
           Inl e \<Rightarrow> Inl e
         | Inr json_data \<Rightarrow> SchemaValidator json_data))"

text \<open>The repaired text, \<open>fix_str\<close> at line 48, that the decoder is given.\<close>

abbreviation repaired :: "ucd \<Rightarrow> pystr \<Rightarrow> pystr" where
  "repaired db raw_json_str \<equiv>
     StructuralRepairer db (EscapeRepairer db (TextNormalizer raw_json_str))"

section \<open>The schema of the specification\<close>

text \<open>
  The shape the specification requires of the decoded document (its data model): a
  mapping with the keys \<open>generation_prompt\<close> and \<open>manual\<close> bound to text and
  \<open>evaluation_rubic\<close> bound to a mapping with the five rubric keys, each bound to text.
\<close>

definition is_text :: "json option \<Rightarrow> bool" where
  "is_text v = (case v of Some (JString t) \<Rightarrow> True | _ \<Rightarrow> False)"

definition RubricSchema :: "json \<Rightarrow> bool" where
  "RubricSchema v =
     (case v of
        JObject kvs \<Rightarrow>
          is_text (map_of kvs (ascii ''generation_prompt''))
          \<and> is_text (map_of kvs (ascii ''manual''))
          \<and> (case map_of kvs (ascii ''evaluation_rubic'') of
                Some (JObject rs) \<Rightarrow> list_all (\<lambda>f. is_text (map_of rs f)) rubic_fields
              | _ \<Rightarrow> False)
      | _ \<Rightarrow> False)"

section \<open>What the repairs look for\<close>

text \<open>
  Whether a text holds a match of one of the patterns of steps 2 and 3, as \<open>re.search\<close>
  would find it: a backslash before a decimal digit; a comma, whitespace and the closing
  character \<open>cl\<close>; a bare word between an opening brace or a comma and a colon; a single
  quote that no backslash precedes.  \<open>full_width\<close> is the punctuation lines 38 and 39
  replace.  These predicates state which texts the repairs leave alone.
\<close>

definition has_backslash_digit :: "ucd \<Rightarrow> pystr \<Rightarrow> bool" where
  "has_backslash_digit db s = list_ex (\<lambda>(b, d). b = 92 \<and> is_decimal db d) (zip s (tl s))"

definition has_trailing_comma :: "nat \<Rightarrow> pystr \<Rightarrow> bool" where
  "has_trailing_comma cl s =
     list_ex (\<lambda>t. startswith t 44 \<and> startswith (dropWhile isspace (tl t)) cl) (suffixes s)"

definition has_bare_key :: "ucd \<Rightarrow> pystr \<Rightarrow> bool" where
  "has_bare_key db s =
     list_ex (\<lambda>t. (startswith t 123 \<or> startswith t 44)
                \<and> takeWhile (is_word db) (dropWhile isspace (tl t)) \<noteq> []
                \<and> startswith (dropWhile isspace (dropWhile (is_word db) (dropWhile isspace (tl t)))) 58)
       (suffixes s)"

definition has_unescaped_quote :: "pystr \<Rightarrow> bool" where
  "has_unescaped_quote s =
     (startswith s 39 \<or> list_ex (\<lambda>(p, c). p \<noteq> 92 \<and> c = 39) (zip s (tl s)))"

definition full_width :: "nat list" where
  "full_width = [65306, 65292, 8221, 8220, 65307, 12290, 65288, 65289]"

definition repair_trigger :: "ucd \<Rightarrow> pystr \<Rightarrow> bool" where
  "repair_trigger db s =
     (sublist [92, 92, 110] s \<or> sublist [92, 92, 116] s \<or> has_backslash_digit db s
      \<or> list_ex (\<lambda>c. c \<in> set full_width) s
      \<or> has_trailing_comma 125 s \<or> has_trailing_comma 93 s
      \<or> has_bare_key db s \<or> has_unescaped_quote s)"

section \<open>Evaluation\<close>

text \<open>The definitions the simplifier unfolds to run the model on a given text.\<close>

lemmas str_eval = startswith_def endswith_def slice_1_m1_def py_strip_def isspace_def
  is_word_def is_decimal_def

lemmas repair_eval = str_eval TextNormalizer_def EscapeRepairer_def StructuralRepairer_def

lemmas loads_eval = json_loads_def startswith_def is_json_ws_def cons_char_def scan_atom_def
  match_number_def match_int_part_def match_frac_def match_exp_def is_digit_def
  int_of_digits_def hex4_def hex_val_def backslash_def JSONDecodeError_def rfind_newline_def

lemmas valid_eval = SchemaValidator_def required_fields_def rubic_fields_def Parser_def

lemmas process_eval = process_json_string_def repair_eval loads_eval valid_eval

section \<open>Trimming\<close>

lemma dropWhile_fix: "xs = [] \<or> \<not> P (hd xs) \<Longrightarrow> dropWhile P xs = xs"
  by (cases xs) auto

lemma dropWhile_head: "dropWhile P xs = [] \<or> \<not> P (hd (dropWhile P xs))"
  using hd_dropWhile [of P xs] by blast

lemma last_dropWhile_rev:
  assumes "dropWhile P (rev xs) \<noteq> []"
  shows "xs \<noteq> [] \<and> last (dropWhile P (rev xs)) = hd xs"
proof -
  have ne: "xs \<noteq> []" using assms by auto
  have "rev xs = takeWhile P (rev xs) @ dropWhile P (rev xs)" by simp
  then have "last (rev xs) = last (dropWhile P (rev xs))"
    using assms by (metis last_appendR)
  then show ?thesis using ne by (simp add: last_rev)
qed

text \<open>A trimmed text is empty, or neither its first nor its last character is whitespace.\<close>

lemma py_strip_ends:
  "py_strip s = [] \<or> (\<not> isspace (hd (py_strip s)) \<and> \<not> isspace (last (py_strip s)))"
proof (cases "py_strip s = []")
  case True
  then show ?thesis by simp
next
  case False
  let ?u = "dropWhile isspace s"
  let ?v = "dropWhile isspace (rev ?u)"
  have v: "?v \<noteq> []" using False by (simp add: py_strip_def)
  have "\<not> isspace (hd ?v)" using v dropWhile_head [of isspace "rev ?u"] by blast
  then have l: "\<not> isspace (last (py_strip s))" using v by (simp add: py_strip_def last_rev)
  have "?u \<noteq> [] \<and> last ?v = hd ?u" using last_dropWhile_rev [OF v] .
  moreover have "\<not> isspace (hd ?u)" using calculation dropWhile_head [of isspace s] by blast
  ultimately have "\<not> isspace (hd (py_strip s))" using v by (simp add: py_strip_def hd_rev)
  with l show ?thesis by blast
qed

lemma py_strip_fix:
  assumes "t = [] \<or> (\<not> isspace (hd t) \<and> \<not> isspace (last t))"
  shows "py_strip t = t"
proof (cases "t = []")
  case True
  then show ?thesis by (simp add: py_strip_def)
next
  case False
  with assms have h: "\<not> isspace (hd t)" and l: "\<not> isspace (last t)" by auto
  have 1: "dropWhile isspace t = t" using h by (intro dropWhile_fix) simp
  have 2: "dropWhile isspace (rev t) = rev t"
    using l False by (intro dropWhile_fix) (simp add: hd_rev)
  show ?thesis by (simp add: py_strip_def 1 2)
qed

lemma py_strip_idem: "py_strip (py_strip s) = py_strip s"
  by (rule py_strip_fix) (rule py_strip_ends)

lemma TextNormalizer_ends:
  "TextNormalizer s = []
   \<or> (\<not> isspace (hd (TextNormalizer s)) \<and> \<not> isspace (last (TextNormalizer s)))"
  unfolding TextNormalizer_def Let_def by (rule py_strip_ends)

section \<open>Claims about step 1\<close>

text \<open>
  Claim C5.  An input that is empty after the cleaning of step 1 (trimming, removal of one
  enclosing pair of double quotes, trimming) fails with the empty-input error.  The result
  does not depend on the repairs, the decoder or the validation: none of them runs.
\<close>

theorem C5_empty_input:
  "TextNormalizer raw = [] \<Longrightarrow> process_json_string db raw = Inl EmptyInputError"
  by (simp add: process_json_string_def)

theorem C5_empty_input_witness:
  \<open>TextNormalizer (ascii '' " " '') = []
   \<and> process_json_string ucd_ascii (ascii '' " " '') = Inl EmptyInputError\<close>
proof -
  have h: \<open>TextNormalizer (ascii '' " " '') = []\<close>
    by (simp add: repair_eval)
  show ?thesis using h C5_empty_input [OF h, of ucd_ascii] by simp
qed

text \<open>
  Claim C6.  Cleaning a cleaned text again changes nothing, whenever the cleaned text does
  not both begin and end with a double quote.
\<close>

theorem C6_normalizer_idempotent:
  assumes "\<not> (startswith (TextNormalizer s) 34 \<and> endswith (TextNormalizer s) 34)"
  shows "TextNormalizer (TextNormalizer s) = TextNormalizer s"
proof -
  have "py_strip (TextNormalizer s) = TextNormalizer s"
    by (rule py_strip_fix) (rule TextNormalizer_ends)
  then show ?thesis
    using assms by (auto simp: TextNormalizer_def [of "TextNormalizer s"] Let_def)
qed

theorem C6_normalizer_idempotent_witness:
  \<open>\<not> (startswith (TextNormalizer (ascii '' "{}" '')) 34
        \<and> endswith (TextNormalizer (ascii '' "{}" '')) 34)
   \<and> TextNormalizer (ascii '' "{}" '') = ascii ''{}''
   \<and> TextNormalizer (TextNormalizer (ascii '' "{}" '')) = TextNormalizer (ascii '' "{}" '')\<close>
proof -
  have v: \<open>TextNormalizer (ascii '' "{}" '') = ascii ''{}''\<close>
    by (simp add: repair_eval)
  have h: \<open>\<not> (startswith (TextNormalizer (ascii '' "{}" '')) 34
        \<and> endswith (TextNormalizer (ascii '' "{}" '')) 34)\<close>
    unfolding v by (simp add: str_eval)
  show ?thesis using h v C6_normalizer_idempotent [OF h] by blast
qed

text \<open>
  Claim C9.  An input that trims to one double quote: the quote is both the first and the
  last character, the slice between them is empty, and the call fails with the empty-input
  error, not with a decode error.
\<close>

theorem C9_single_quote:
  "py_strip raw = [34] \<Longrightarrow> process_json_string db raw = Inl EmptyInputError"
  by (simp add: process_json_string_def TextNormalizer_def startswith_def endswith_def
      slice_1_m1_def py_strip_def)

theorem C9_single_quote_witness:
  \<open>py_strip (ascii '' " '') = [34]
   \<and> process_json_string ucd_ascii (ascii '' " '') = Inl EmptyInputError\<close>
proof -
  have h: \<open>py_strip (ascii '' " '') = [34]\<close>
    by (simp add: str_eval)
  show ?thesis using h C9_single_quote [OF h, of ucd_ascii] by simp
qed

section \<open>Decoding and validation\<close>

text \<open>Once the repaired text decodes, the result is that of the validation alone.\<close>

lemma process_decoded:
  assumes "TextNormalizer raw \<noteq> []" and "json_loads (repaired db raw) = Inr v"
  shows "process_json_string db raw = SchemaValidator v"
  using assms by (simp add: process_json_string_def Parser_def Let_def)

lemma missing_of_JObject:
  "missing_of fs (JObject kvs) = Inr (filter (\<lambda>f. f \<notin> fst ` set kvs) fs)"
  by (induction fs) auto

lemma SchemaValidator_JObject:
  "SchemaValidator (JObject kvs) =
     (if filter (\<lambda>f. f \<notin> fst ` set kvs) required_fields \<noteq> []
      then Inl (MissingFieldError (filter (\<lambda>f. f \<notin> fst ` set kvs) required_fields))
      else
        (case missing_of rubic_fields
                (case map_of kvs (ascii ''evaluation_rubic'') of None \<Rightarrow> JObject [] | Some v \<Rightarrow> v) of
           Inl e \<Rightarrow> Inl e
         | Inr missing_rubic \<Rightarrow>
             if missing_rubic \<noteq> [] then Inl (MissingRubricFieldError missing_rubic)
             else Inr (JObject kvs)))"
  unfolding SchemaValidator_def missing_of_JObject by simp


lemma py_in_not_container:
  "v = JNull \<or> (\<exists>b. v = JBool b) \<or> (\<exists>i. v = JInt i) \<or> (\<exists>t. v = JFloat t) \<Longrightarrow> py_in f v = Inl TypeError"
  by auto

lemma SchemaValidator_result: "SchemaValidator d = Inr v \<Longrightarrow> v = d"
  by (auto simp: SchemaValidator_def split: sum.splits if_splits)

lemma process_success:
  assumes "process_json_string db raw = Inr v"
  shows "TextNormalizer raw \<noteq> [] \<and> json_loads (repaired db raw) = Inr v \<and> SchemaValidator v = Inr v"
proof -
  have n: "TextNormalizer raw \<noteq> []"
    using assms by (auto simp: process_json_string_def)
  obtain d where d: "Parser (repaired db raw) = Inr d" and s: "SchemaValidator d = Inr v"
    using assms n by (auto simp: process_json_string_def Let_def split: sum.splits)
  have "json_loads (repaired db raw) = Inr d"
    using d by (auto simp: Parser_def split: sum.splits error.splits)
  moreover have "v = d" using s by (rule SchemaValidator_result)
  ultimately show ?thesis using n s by simp
qed

lemma missing_of_none: "missing_of fs d = Inr [] \<Longrightarrow> \<forall>f \<in> set fs. py_in f d = Inr True"
  by (induction fs) (auto split: sum.splits if_splits)

lemma SchemaValidator_success:
  assumes "SchemaValidator d = Inr v"
  shows "\<exists>kvs r. d = JObject kvs \<and> (\<forall>f \<in> set required_fields. f \<in> fst ` set kvs)
      \<and> map_of kvs (ascii ''evaluation_rubic'') = Some r
      \<and> (\<forall>f \<in> set rubic_fields. py_in f r = Inr True)"
proof -
  obtain kvs where k: "d = JObject kvs"
    using assms by (cases d) (auto simp: SchemaValidator_def required_fields_def split: sum.splits if_splits)
  have m: "filter (\<lambda>f. f \<notin> fst ` set kvs) required_fields = []"
    using assms unfolding k SchemaValidator_JObject by (auto split: if_splits)
  then have req: "\<forall>f \<in> set required_fields. f \<in> fst ` set kvs"
    by (simp add: filter_empty_conv)
  then have "ascii ''evaluation_rubic'' \<in> fst ` set kvs"
    by (simp add: required_fields_def)
  then obtain r where r: "map_of kvs (ascii ''evaluation_rubic'') = Some r"
    by (metis map_of_eq_None_iff not_Some_eq)
  have "missing_of rubic_fields r = Inr []"
    using assms unfolding k SchemaValidator_JObject m r by (auto split: sum.splits if_splits)
  then have "\<forall>f \<in> set rubic_fields. py_in f r = Inr True" by (rule missing_of_none)
  with k req r show ?thesis by blast
qed

section \<open>Claims about decoding and validation\<close>

text \<open>
  Claim C2 says that a successful call returns a mapping in which \<open>generation_prompt\<close> and
  \<open>manual\<close> are bound to strings and \<open>evaluation_rubic\<close> to a mapping of the five rubric
  keys to strings.  The code tests membership only, with Python's \<open>in\<close>; here a call
  succeeds although two values are numbers and \<open>evaluation_rubic\<close> is a list.
\<close>

theorem C2_success_contract_counterexample:
  \<open>process_json_string ucd_ascii
      (ascii ''{"generation_prompt":1,"evaluation_rubic":["pc_rubic","cmp_rubic","slr_rubic","clr_rubic","ri_rubic"],"manual":2}'')
     = Inr (JObject [(ascii ''generation_prompt'', JInt 1),
              (ascii ''evaluation_rubic'',
                 JArray [JString (ascii ''pc_rubic''), JString (ascii ''cmp_rubic''),
                         JString (ascii ''slr_rubic''), JString (ascii ''clr_rubic''),
                         JString (ascii ''ri_rubic'')]),
              (ascii ''manual'', JInt 2)])
   \<and> \<not> RubricSchema (JObject [(ascii ''generation_prompt'', JInt 1),
              (ascii ''evaluation_rubic'',
                 JArray [JString (ascii ''pc_rubic''), JString (ascii ''cmp_rubic''),
                         JString (ascii ''slr_rubic''), JString (ascii ''clr_rubic''),
                         JString (ascii ''ri_rubic'')]),
              (ascii ''manual'', JInt 2)])\<close>
proof -
  let ?raw = \<open>ascii ''{"generation_prompt":1,"evaluation_rubic":["pc_rubic","cmp_rubic","slr_rubic","clr_rubic","ri_rubic"],"manual":2}''\<close>
  let ?v = \<open>JObject [(ascii ''generation_prompt'', JInt 1),
              (ascii ''evaluation_rubic'',
                 JArray [JString (ascii ''pc_rubic''), JString (ascii ''cmp_rubic''),
                         JString (ascii ''slr_rubic''), JString (ascii ''clr_rubic''),
                         JString (ascii ''ri_rubic'')]),
              (ascii ''manual'', JInt 2)]\<close>
  have n: "TextNormalizer ?raw \<noteq> []" by (simp add: repair_eval)
  have f: "repaired ucd_ascii ?raw = ?raw" by (simp add: repair_eval)
  have j: "json_loads (repaired ucd_ascii ?raw) = Inr ?v"
    unfolding f by (simp add: loads_eval)
  have s: "SchemaValidator ?v = Inr ?v" by (simp add: valid_eval)
  have p: "process_json_string ucd_ascii ?raw = Inr ?v"
    unfolding process_decoded [OF n j] by (rule s)
  have r: "\<not> RubricSchema ?v" by (simp add: RubricSchema_def is_text_def)
  show ?thesis using p r by blast
qed

text \<open>
  Claim C2, amended.  A successful call returns the decoded value; it is a mapping with the
  keys \<open>generation_prompt\<close>, \<open>evaluation_rubic\<close> and \<open>manual\<close>, and each of the five rubric
  names is found in the value of \<open>evaluation_rubic\<close> by Python's \<open>in\<close>: as a key of a
  mapping, an element of a list or a substring of a string.  No type of a value is checked.
\<close>

theorem C2_success_contract:
  assumes "process_json_string db raw = Inr v"
  shows "\<exists>kvs r. v = JObject kvs \<and> json_loads (repaired db raw) = Inr v
      \<and> (\<forall>f \<in> set required_fields. f \<in> fst ` set kvs)
      \<and> map_of kvs (ascii ''evaluation_rubic'') = Some r
      \<and> (\<forall>f \<in> set rubic_fields. py_in f r = Inr True)"
  using process_success [OF assms] SchemaValidator_success [of v v] by blast

theorem C2_success_contract_witness:
  \<open>process_json_string ucd_ascii
      (ascii ''{"generation_prompt":"p","evaluation_rubic":{"pc_rubic":"a","cmp_rubic":"b","slr_rubic":"c","clr_rubic":"d","ri_rubic":"e"},"manual":"m"}'')
     = Inr (JObject [(ascii ''generation_prompt'', JString (ascii ''p'')),
              (ascii ''evaluation_rubic'',
                 JObject [(ascii ''pc_rubic'', JString (ascii ''a'')),
                          (ascii ''cmp_rubic'', JString (ascii ''b'')),
                          (ascii ''slr_rubic'', JString (ascii ''c'')),
                          (ascii ''clr_rubic'', JString (ascii ''d'')),
                          (ascii ''ri_rubic'', JString (ascii ''e''))]),
              (ascii ''manual'', JString (ascii ''m''))])
   \<and> (\<exists>kvs r. json_loads (repaired ucd_ascii
          (ascii ''{"generation_prompt":"p","evaluation_rubic":{"pc_rubic":"a","cmp_rubic":"b","slr_rubic":"c","clr_rubic":"d","ri_rubic":"e"},"manual":"m"}''))
            = Inr (JObject kvs)
        \<and> map_of kvs (ascii ''evaluation_rubic'') = Some r
        \<and> py_in (ascii ''ri_rubic'') r = Inr True)\<close>
proof -
  let ?raw = \<open>ascii ''{"generation_prompt":"p","evaluation_rubic":{"pc_rubic":"a","cmp_rubic":"b","slr_rubic":"c","clr_rubic":"d","ri_rubic":"e"},"manual":"m"}''\<close>
  let ?v = \<open>JObject [(ascii ''generation_prompt'', JString (ascii ''p'')),
              (ascii ''evaluation_rubic'',
                 JObject [(ascii ''pc_rubic'', JString (ascii ''a'')),
                          (ascii ''cmp_rubic'', JString (ascii ''b'')),
                          (ascii ''slr_rubic'', JString (ascii ''c'')),
                          (ascii ''clr_rubic'', JString (ascii ''d'')),
                          (ascii ''ri_rubic'', JString (ascii ''e''))]),
              (ascii ''manual'', JString (ascii ''m''))]\<close>
  have n: "TextNormalizer ?raw \<noteq> []" by (simp add: repair_eval)
  have f: "repaired ucd_ascii ?raw = ?raw" by (simp add: repair_eval)
  have j: "json_loads (repaired ucd_ascii ?raw) = Inr ?v"
    unfolding f by (simp add: loads_eval)
  have s: "SchemaValidator ?v = Inr ?v" by (simp add: valid_eval)
  have p: "process_json_string ucd_ascii ?raw = Inr ?v"
    unfolding process_decoded [OF n j] by (rule s)
  obtain kvs r where k: "?v = JObject kvs" "json_loads (repaired ucd_ascii ?raw) = Inr ?v"
      "map_of kvs (ascii ''evaluation_rubic'') = Some r"
      "\<forall>f \<in> set rubic_fields. py_in f r = Inr True"
    using C2_success_contract [OF p] by blast
  have "py_in (ascii ''ri_rubic'') r = Inr True"
    using k(4) by (simp add: rubic_fields_def)
  then have "\<exists>kvs r. json_loads (repaired ucd_ascii ?raw) = Inr (JObject kvs)
        \<and> map_of kvs (ascii ''evaluation_rubic'') = Some r
        \<and> py_in (ascii ''ri_rubic'') r = Inr True"
    using k(1,2,3) by metis
  then show ?thesis using p by blast
qed





text \<open>
  Claim C7.  On the text \<open>{"a":1,}\<close> the structural repairs remove the comma before the
  closing brace; the repaired text decodes to the mapping of \<open>a\<close> to 1, so the decoding
  step of \<open>process_json_string\<close> succeeds (the call then fails in the validation, for the
  three required keys are absent).
\<close>

theorem C7_trailing_comma:
  \<open>StructuralRepairer db (ascii ''{"a":1,}'') = ascii ''{"a":1}''
   \<and> json_loads (ascii ''{"a":1}'') = Inr (JObject [(ascii ''a'', JInt 1)])
   \<and> Parser (repaired db (ascii ''{"a":1,}'')) = Inr (JObject [(ascii ''a'', JInt 1)])
   \<and> process_json_string db (ascii ''{"a":1,}'') = Inl (MissingFieldError required_fields)\<close>
proof -
  let ?raw = \<open>ascii ''{"a":1,}''\<close>
  have r: \<open>StructuralRepairer db ?raw = ascii ''{"a":1}''\<close>
    by (simp add: repair_eval)
  have l: \<open>json_loads (ascii ''{"a":1}'') = Inr (JObject [(ascii ''a'', JInt 1)])\<close>
    by (simp add: loads_eval)
  have n: "TextNormalizer ?raw \<noteq> []"
    by (simp add: repair_eval)
  have f: \<open>repaired db ?raw = ascii ''{"a":1}''\<close>
    by (simp add: repair_eval)
  have j: "json_loads (repaired db ?raw) = Inr (JObject [(ascii ''a'', JInt 1)])"
    unfolding f by (rule l)
  have p: "Parser (repaired db ?raw) = Inr (JObject [(ascii ''a'', JInt 1)])"
    unfolding Parser_def j by simp
  have v: "SchemaValidator (JObject [(ascii ''a'', JInt 1)]) = Inl (MissingFieldError required_fields)"
    by (simp add: SchemaValidator_JObject required_fields_def)
  have "process_json_string db ?raw = Inl (MissingFieldError required_fields)"
    unfolding process_decoded [OF n j] by (rule v)
  with r l p show ?thesis by blast
qed

text \<open>
  Claim C10.  A decoded mapping with the three required keys whose \<open>evaluation_rubic\<close> is
  \<open>null\<close>, a boolean or a number: the membership test of line 72 raises \<open>TypeError\<close>,
  which is none of the errors of the taxonomy.  The witness is such an input.
\<close>

theorem C10_rubric_not_container:
  assumes "TextNormalizer raw \<noteq> []"
    and "json_loads (repaired db raw) = Inr (JObject kvs)"
    and "\<forall>f \<in> set required_fields. f \<in> fst ` set kvs"
    and "map_of kvs (ascii ''evaluation_rubic'') = Some v"
    and "v = JNull \<or> (\<exists>b. v = JBool b) \<or> (\<exists>i. v = JInt i) \<or> (\<exists>t. v = JFloat t)"
  shows "process_json_string db raw = Inl TypeError"
proof -
  have m: "filter (\<lambda>f. f \<notin> fst ` set kvs) required_fields = []"
    using assms(3) by (simp add: filter_empty_conv)
  have t: "missing_of rubic_fields v = Inl TypeError"
    using py_in_not_container [OF assms(5)] by (simp add: rubic_fields_def)
  show ?thesis
    unfolding process_decoded [OF assms(1,2)] SchemaValidator_JObject m
    using assms(4) t by simp
qed

theorem C10_rubric_not_container_witness:
  \<open>process_json_string ucd_ascii
      (ascii ''{"generation_prompt":"","evaluation_rubic":1,"manual":""}'') = Inl TypeError\<close>
proof -
  let ?raw = \<open>ascii ''{"generation_prompt":"","evaluation_rubic":1,"manual":""}''\<close>
  let ?kvs = \<open>[(ascii ''generation_prompt'', JString []), (ascii ''evaluation_rubic'', JInt 1),
               (ascii ''manual'', JString [])]\<close>
  have 1: "TextNormalizer ?raw \<noteq> []" by (simp add: repair_eval)
  have 2: "json_loads (repaired ucd_ascii ?raw) = Inr (JObject ?kvs)"
    by (simp add: repair_eval loads_eval)
  have 3: "\<forall>f \<in> set required_fields. f \<in> fst ` set ?kvs" by (simp add: required_fields_def)
  have 4: "map_of ?kvs (ascii ''evaluation_rubic'') = Some (JInt 1)" by simp
  have 5: "JInt 1 = JNull \<or> (\<exists>b. JInt 1 = JBool b) \<or> (\<exists>i. JInt 1 = JInt i) \<or> (\<exists>t. JInt 1 = JFloat t)"
    by simp
  show ?thesis using C10_rubric_not_container [OF 1 2 3 4 5] .
qed

section \<open>Texts the repairs leave alone\<close>

lemma py_replace_id: "old \<noteq> [] \<Longrightarrow> \<not> sublist old s \<Longrightarrow> py_replace old new s = s"
proof (induction s)
  case Nil
  then show ?case by simp
next
  case (Cons c cs)
  then show ?case by (auto simp: sublist_Cons_right)
qed

lemma py_replace_char: "py_replace [a] [b] s = map (\<lambda>c. if c = a then b else c) s"
  by (induction s) auto

lemma sub_backslash_digit_id:
  "\<not> has_backslash_digit db s \<Longrightarrow> sub_backslash_digit db s = s"
  by (induction db s rule: sub_backslash_digit.induct) (auto simp: has_backslash_digit_def)

lemma sub_trailing_comma_id:
  "\<not> has_trailing_comma cl s \<Longrightarrow> sub_trailing_comma cl s = s"
  by (induction s) (auto simp: has_trailing_comma_def startswith_def)

lemma sub_bare_key_id:
  "\<not> has_bare_key db s \<Longrightarrow> sub_bare_key db s = s"
  by (induction s) (auto simp: has_bare_key_def startswith_def)

lemma sub_single_quote_id:
  "(esc \<or> \<not> startswith s 39) \<Longrightarrow> \<not> list_ex (\<lambda>(p, c). p \<noteq> 92 \<and> c = 39) (zip s (tl s))
   \<Longrightarrow> sub_single_quote esc s = s"
proof (induction s arbitrary: esc)
  case Nil
  then show ?case by simp
next
  case (Cons c cs)
  have "sub_single_quote (c = 92) cs = cs"
    using Cons.prems by (intro Cons.IH) (cases cs; auto simp: startswith_def)+
  then show ?case using Cons.prems by (auto simp: startswith_def)
qed

lemma map_id_notin: "a \<notin> set s \<Longrightarrow> map (\<lambda>c. if c = a then b else c) s = s"
  by (induction s) auto

lemma py_replace_char_absent: "a \<notin> set s \<Longrightarrow> py_replace [a] [b] s = s"
  by (simp add: py_replace_char map_id_notin)

lemma no_trigger_repaired:
  assumes "\<not> repair_trigger db s"
  shows "StructuralRepairer db (EscapeRepairer db s) = s"
proof -
  have fw: "\<forall>c \<in> set full_width. c \<notin> set s"
    using assms by (auto simp: repair_trigger_def list_ex_iff)
  have 1: "py_replace [92, 92, 116] [92, 116] (py_replace [92, 92, 110] [92, 110] s) = s"
    using assms by (simp add: py_replace_id repair_trigger_def)
  have 2: "sub_backslash_digit db s = s"
    using assms by (simp add: sub_backslash_digit_id repair_trigger_def)
  have 3: "py_replace [65306] [58] s = s" "py_replace [65292] [44] s = s"
      "py_replace [8221] [34] s = s" "py_replace [8220] [34] s = s"
      "py_replace [65307] [59] s = s" "py_replace [12290] [46] s = s"
      "py_replace [65288] [40] s = s" "py_replace [65289] [41] s = s"
    using fw by (simp_all add: py_replace_char_absent full_width_def)
  have e: "EscapeRepairer db s = s"
    unfolding EscapeRepairer_def Let_def 1 2 3 ..
  have 4: "sub_trailing_comma 125 s = s" "sub_trailing_comma 93 s = s"
    using assms by (simp_all add: sub_trailing_comma_id repair_trigger_def)
  have 5: "sub_bare_key db s = s"
    using assms by (simp add: sub_bare_key_id repair_trigger_def)
  have 6: "sub_single_quote False s = s"
    using assms by (intro sub_single_quote_id) (simp_all add: repair_trigger_def has_unescaped_quote_def)
  show ?thesis
    unfolding e StructuralRepairer_def Let_def 4 5 6 ..
qed

section \<open>Claims about the repairs\<close>

text \<open>
  Claim C8.  On a text with no doubled backslash before \<open>n\<close> or \<open>t\<close>, no backslash
  before a decimal digit and none of the six other full-width characters of the table,
  step 2 replaces every full-width colon by a colon and every full-width comma by a comma,
  and every other character stays what and where it is: the result is the text mapped
  character by character.
\<close>

theorem C8_full_width:
  assumes "\<not> sublist [92, 92, 110] s" and "\<not> sublist [92, 92, 116] s"
    and "\<not> has_backslash_digit db s"
    and "set s \<inter> {8221, 8220, 65307, 12290, 65288, 65289} = {}"
  shows "EscapeRepairer db s = map (\<lambda>c. if c = 65306 then 58 else if c = 65292 then 44 else c) s"
proof -
  have 1: "py_replace [92, 92, 116] [92, 116] (py_replace [92, 92, 110] [92, 110] s) = s"
    using assms(1,2) by (simp add: py_replace_id)
  have 2: "sub_backslash_digit db s = s"
    using assms(3) by (rule sub_backslash_digit_id)
  let ?f = "\<lambda>c::nat. if c = 65306 then 58 else if c = 65292 then 44 else c"
  have 3: "py_replace [65292] [44] (py_replace [65306] [58] s) = map ?f s"
    by (simp add: py_replace_char)
  let ?t = "map ?f s"
  have m: "8221 \<notin> set ?t" "8220 \<notin> set ?t" "65307 \<notin> set ?t"
      "12290 \<notin> set ?t" "65288 \<notin> set ?t" "65289 \<notin> set ?t"
    using assms(4) by auto
  have a: "py_replace [8221] [34] ?t = ?t" by (rule py_replace_char_absent) (rule m)
  have b: "py_replace [8220] [34] ?t = ?t" by (rule py_replace_char_absent) (rule m)
  have c: "py_replace [65307] [59] ?t = ?t" by (rule py_replace_char_absent) (rule m)
  have d: "py_replace [12290] [46] ?t = ?t" by (rule py_replace_char_absent) (rule m)
  have e: "py_replace [65288] [40] ?t = ?t" by (rule py_replace_char_absent) (rule m)
  have f: "py_replace [65289] [41] ?t = ?t" by (rule py_replace_char_absent) (rule m)
  show ?thesis
    unfolding EscapeRepairer_def Let_def 1 2 3 a b c d e f ..
qed

theorem C8_full_width_witness:
  "\<not> sublist [92, 92, 110] ([97, 65306, 32, 98, 65292, 99] :: pystr)
   \<and> \<not> sublist [92, 92, 116] ([97, 65306, 32, 98, 65292, 99] :: pystr)
   \<and> \<not> has_backslash_digit ucd_ascii [97, 65306, 32, 98, 65292, 99]
   \<and> set ([97, 65306, 32, 98, 65292, 99] :: pystr) \<inter> {8221, 8220, 65307, 12290, 65288, 65289} = {}
   \<and> EscapeRepairer ucd_ascii [97, 65306, 32, 98, 65292, 99] = [97, 58, 32, 98, 44, 99]"
proof -
  let ?s = "[97, 65306, 32, 98, 65292, 99] :: pystr"
  have 1: "\<not> sublist [92, 92, 110] ?s" by (simp add: sublist_code)
  have 2: "\<not> sublist [92, 92, 116] ?s" by (simp add: sublist_code)
  have 3: "\<not> has_backslash_digit ucd_ascii ?s" by (simp add: has_backslash_digit_def)
  have 4: "set ?s \<inter> {8221, 8220, 65307, 12290, 65288, 65289} = {}" by simp
  have 5: "EscapeRepairer ucd_ascii ?s = [97, 58, 32, 98, 44, 99]"
    using C8_full_width [OF 1 2 3 4] by simp
  show ?thesis using 1 2 3 4 5 by blast
qed

section \<open>The decoder and trailing whitespace\<close>

text \<open>
  A run of the decoder that succeeds on a text followed by whitespace succeeds on the text
  alone, with the same value, and needs no more fuel than twice the length of the text.
  The lemmas follow the decoder: strings, numbers, the other atoms, and the mutual
  recursion of values, objects and arrays by induction on the fuel.
\<close>

lemma json_ws_isspace: "is_json_ws c \<Longrightarrow> isspace c"
  by (auto simp: is_json_ws_def isspace_def)

lemma hex_val_space: "isspace c \<Longrightarrow> hex_val c = None"
  by (auto simp: hex_val_def isspace_def)

lemma backslash_space: "isspace c \<Longrightarrow> backslash c = None"
  by (auto simp: backslash_def isspace_def)

lemma hex4_short: "length t < 5 \<Longrightarrow> hex4 t = None"
  by (auto simp: hex4_def split: list.splits)

lemma hex4_append_long: "5 \<le> length t \<Longrightarrow> hex4 (t @ ws) = hex4 t"
  by (cases t; cases "tl t"; cases "tl (tl t)"; cases "tl (tl (tl t))"; cases "tl (tl (tl (tl t)))")
     (auto simp: hex4_def)

lemma hex4_append_space:
  assumes "\<forall>c\<in>set ws. isspace c" and "hex4 (t @ ws) = Some u"
  shows "4 \<le> length t"
proof (rule ccontr)
  assume "\<not> 4 \<le> length t"
  then have "length t < 4" by simp
  then consider "t = []" | a where "t = [a]" | a b where "t = [a, b]" | a b c where "t = [a, b, c]"
    by (cases t; cases "tl t"; cases "tl (tl t)"; cases "tl (tl (tl t))") auto
  then show False
    using assms
    by cases (auto simp: hex4_def hex_val_space split: list.splits option.splits)
qed

lemma take2_append_space:
  assumes "\<forall>c\<in>set ws. isspace c"
  shows "take 2 (y @ ws) = [92, 117] \<longleftrightarrow> take 2 y = [92, 117]"
proof (cases y)
  case Nil
  then show ?thesis using assms by (cases ws) (auto simp: isspace_def)
next
  case (Cons a y')
  then show ?thesis using assms by (cases y'; cases ws) (auto simp: isspace_def)
qed

lemma take2_eq: "take 2 y = [a, b] \<Longrightarrow> y = a # b # drop 2 y"
  by (cases y; cases "tl y") auto

lemma scanstring_spaces:
  "\<forall>c\<in>set ws. isspace c \<Longrightarrow> \<exists>e. scanstring b ws = Inl e"
proof (induction ws)
  case Nil
  then show ?case by simp
next
  case (Cons c ws)
  then obtain e where "scanstring b ws = Inl e" by auto
  moreover have "c \<noteq> 34" "c \<noteq> 92" using Cons.prems by (auto simp: isspace_def)
  ultimately show ?case by (simp add: cons_char_def)
qed

lemma cons_char_Inr:
  "cons_char c x = Inr (k, r) \<longleftrightarrow> (\<exists>k'. x = Inr (k', r) \<and> k = c # k')"
  by (auto simp: cons_char_def split: sum.splits)

lemma scanstring_trim:
  assumes "\<forall>c\<in>set ws. isspace c"
  shows "scanstring b (cs @ ws) = Inr (k, r') \<Longrightarrow>
         \<exists>r. r' = r @ ws \<and> length r < length cs \<and> (\<forall>b'. scanstring b' cs = Inr (k, r))"
proof (induction "length cs" arbitrary: cs k r' rule: less_induct)
  case less
  note IH = less.hyps
  show ?case
  proof (cases cs)
    case Nil
    then show ?thesis using less.prems scanstring_spaces [OF assms, of b] by auto
  next
    case (Cons c cs1)
    note cs = Cons
    consider (quote) "c = 34" | (esc) "c = 92" | (plain) "c \<noteq> 34" "c \<noteq> 92" by blast
    then show ?thesis
    proof cases
      case quote
      then show ?thesis using less.prems cs by auto
    next
      case plain
      then obtain k' where k': "scanstring b (cs1 @ ws) = Inr (k', r')" "k = c # k'" "\<not> c \<le> 31"
        using less.prems cs by (auto simp: cons_char_Inr split: if_splits)
      from IH [of cs1, OF _ k'(1)] cs obtain r where
        "r' = r @ ws" "length r < length cs1" "\<forall>b'. scanstring b' cs1 = Inr (k', r)" by auto
      then show ?thesis using plain k' cs by (auto simp: cons_char_def)
    next
      case esc
      show ?thesis
      proof (cases cs1)
        case Nil
        then show ?thesis
          using less.prems cs esc assms
          by (cases ws) (auto simp: backslash_space isspace_def split: if_splits)
      next
        case (Cons e t)
        note cs1 = Cons
        show ?thesis
        proof (cases "e = 117")
          case False
          then obtain ch k' where k': "backslash e = Some ch" "scanstring b (t @ ws) = Inr (k', r')" "k = ch # k'"
            using less.prems cs cs1 esc by (auto simp: cons_char_Inr split: option.splits)
          from IH [of t, OF _ k'(2)] cs cs1 obtain r where
            "r' = r @ ws" "length r < length t" "\<forall>b'. scanstring b' t = Inr (k', r)" by auto
          then show ?thesis using False k' cs cs1 esc by (auto simp: cons_char_def)
        next
          case True
          then obtain u where u: "hex4 (t @ ws) = Some u"
            using less.prems cs cs1 esc by (auto split: option.splits)
          have t4: "4 \<le> length t" using hex4_append_space [OF assms u] .
          let ?t4 = "drop 4 t"
          have d4: "drop 4 (t @ ws) = ?t4 @ ws" using t4 by simp
          have lt: "length ?t4 < length cs" using cs cs1 by simp
          have step: "scanstring b (cs @ ws) =
              (if 55296 \<le> u \<and> u \<le> 56319 \<and> take 2 (?t4 @ ws) = [92, 117] then
                 (case hex4 (drop 6 (t @ ws)) of
                    None \<Rightarrow> Inl (Errmsg (ascii ''Invalid '' @ [92] @ ascii ''uXXXX escape'')
                              (length (drop 5 (t @ ws))))
                  | Some u2 \<Rightarrow>
                      if 56320 \<le> u2 \<and> u2 \<le> 57343
                      then cons_char (65536 + (u - 55296) * 1024 + (u2 - 56320))
                             (scanstring b (drop 10 (t @ ws)))
                      else cons_char u (scanstring b (?t4 @ ws)))
               else cons_char u (scanstring b (?t4 @ ws)))"
            unfolding d4 [symmetric] using cs cs1 esc True u
            by (simp del: drop_append take_append)
          show ?thesis
          proof (cases "55296 \<le> u \<and> u \<le> 56319 \<and> take 2 (?t4 @ ws) = [92, 117]")
            case False
            then obtain k' where k': "scanstring b (?t4 @ ws) = Inr (k', r')" "k = u # k'"
              using less.prems step by (auto simp: cons_char_Inr)
            from IH [OF lt k'(1)] obtain r where
              r: "r' = r @ ws" "length r < length ?t4" "\<forall>b'. scanstring b' ?t4 = Inr (k', r)" by auto
            have "5 \<le> length t" using r(2) by simp
            then have h: "hex4 t = Some u" using u by (simp add: hex4_append_long)
            have np: "\<not> (55296 \<le> u \<and> u \<le> 56319 \<and> take 2 ?t4 = [92, 117])"
              using False take2_append_space [OF assms, of ?t4] by blast
            have "\<forall>b'. scanstring b' cs = Inr (k, r)"
              using cs cs1 esc True h np r(3) k'(2) by (auto simp: cons_char_def)
            then show ?thesis using r cs cs1 by auto
          next
            case pair: True
            then have p2: "take 2 ?t4 = [92, 117]"
              using take2_append_space [OF assms, of ?t4] by blast
            then have l2: "2 \<le> length ?t4" by (cases ?t4; cases "tl ?t4") auto
            then have d6: "drop 6 (t @ ws) = drop 6 t @ ws" by simp
            obtain u2 where u2: "hex4 (drop 6 t @ ws) = Some u2"
              using less.prems step pair d6 by (auto split: option.splits)
            have t6: "4 \<le> length (drop 6 t)" using hex4_append_space [OF assms u2] .
            then have d10: "drop 10 (t @ ws) = drop 10 t @ ws" by simp
            have t5: "5 \<le> length t" using l2 by simp
            then have h: "hex4 t = Some u" using u by (simp add: hex4_append_long)
            show ?thesis
            proof (cases "56320 \<le> u2 \<and> u2 \<le> 57343")
              case True
              then obtain k' where k': "scanstring b (drop 10 t @ ws) = Inr (k', r')"
                  "k = (65536 + (u - 55296) * 1024 + (u2 - 56320)) # k'"
                using less.prems step pair d6 d10 u2 by (auto simp: cons_char_Inr)
              have "length (drop 10 t) < length cs" using cs cs1 by simp
              from IH [OF this k'(1)] obtain r where
                r: "r' = r @ ws" "length r < length (drop 10 t)"
                   "\<forall>b'. scanstring b' (drop 10 t) = Inr (k', r)" by auto
              have "5 \<le> length (drop 6 t)" using r(2) by simp
              then have h2: "hex4 (drop 6 t) = Some u2" using u2 by (simp add: hex4_append_long)
              have "\<forall>b'. scanstring b' cs = Inr (k, r)"
                using cs cs1 esc \<open>e = 117\<close> h h2 pair p2 True r(3) k'(2)
                by (auto simp: cons_char_def)
              then show ?thesis using r cs cs1 by auto
            next
              case False
              then obtain k' where k': "scanstring b (?t4 @ ws) = Inr (k', r')" "k = u # k'"
                using less.prems step pair d6 u2 by (auto simp: cons_char_Inr)
              from IH [OF lt k'(1)] obtain r where
                r: "r' = r @ ws" "length r < length ?t4" "\<forall>b'. scanstring b' ?t4 = Inr (k', r)" by auto
              have "5 \<le> length (drop 6 t)"
              proof (rule ccontr)
                assume "\<not> 5 \<le> length (drop 6 t)"
                then have n: "hex4 (drop 6 t) = None" by (simp add: hex4_short)
                have "drop 6 t = drop 2 ?t4" by simp
                then have y: "?t4 = 92 # 117 # drop 6 t"
                  using take2_eq [OF p2] by simp
                have "\<exists>e. scanstring b ?t4 = Inl e"
                  by (subst y) (simp add: n)
                then show False using r(3) by auto
              qed
              then have h2: "hex4 (drop 6 t) = Some u2" using u2 by (simp add: hex4_append_long)
              have "\<forall>b'. scanstring b' cs = Inr (k, r)"
                using cs cs1 esc \<open>e = 117\<close> h h2 pair p2 False r(3) k'(2)
                by (auto simp: cons_char_def)
              then show ?thesis using r cs cs1 by auto
            qed
          qed
        qed
      qed
    qed
  qed
qed

lemma space_not_digit: "isspace c \<Longrightarrow> \<not> is_digit c"
  by (auto simp: isspace_def is_digit_def)

lemma takeWhile_append_none:
  "\<forall>c\<in>set ws. \<not> P c \<Longrightarrow> takeWhile P (x @ ws) = takeWhile P x"
  by (induction x) (auto simp: takeWhile_eq_Nil_iff)

lemma dropWhile_append_none:
  "\<forall>c\<in>set ws. \<not> P c \<Longrightarrow> dropWhile P (x @ ws) = dropWhile P x @ ws"
  by (induction x) (auto simp: dropWhile_eq_self_iff)

lemma startswith_append:
  "\<not> isspace c \<Longrightarrow> \<forall>d\<in>set ws. isspace d \<Longrightarrow> startswith (x @ ws) c = startswith x c"
  by (cases x; cases ws) (auto simp: startswith_def)

lemma match_int_part_trim:
  assumes "\<forall>c\<in>set ws. isspace c" and "match_int_part (x @ ws) = Some (ds, r')"
  shows "\<exists>r. r' = r @ ws \<and> length r < length x \<and> match_int_part x = Some (ds, r)"
proof (cases x)
  case Nil
  then show ?thesis using assms
    by (cases ws) (auto simp: match_int_part_def isspace_def split: if_splits)
next
  case (Cons d r)
  have nd: "\<forall>c\<in>set ws. \<not> is_digit c" using assms(1) space_not_digit by blast
  show ?thesis using assms(2) Cons
    by (auto simp: match_int_part_def takeWhile_append_none [OF nd] dropWhile_append_none [OF nd]
        less_Suc_eq_le length_dropWhile_le split: if_splits)
qed

lemma match_frac_trim:
  assumes "\<forall>c\<in>set ws. isspace c" and "match_frac (x @ ws) = (f, r')"
  shows "\<exists>r. r' = r @ ws \<and> match_frac x = (f, r)"
proof -
  have nd: "\<forall>c\<in>set ws. \<not> is_digit c" using assms(1) space_not_digit by blast
  consider "x = []" | p where "x = [p]" | p d r where "x = p # d # r"
    by (cases x; cases "tl x") auto
  then show ?thesis
  proof cases
    case 1
    then show ?thesis using assms
      by (cases ws; cases "tl ws") (auto simp: match_frac_def isspace_def split: if_splits)
  next
    case 2
    then show ?thesis using assms nd
      by (cases ws) (auto simp: match_frac_def split: if_splits)
  next
    case 3
    then show ?thesis using assms(2)
      by (auto simp: match_frac_def takeWhile_append_none [OF nd] dropWhile_append_none [OF nd]
          split: if_splits)
  qed
qed

lemma match_exp_trim:
  assumes "\<forall>c\<in>set ws. isspace c" and "match_exp (x @ ws) = (f, r')"
  shows "\<exists>r. r' = r @ ws \<and> match_exp x = (f, r)"
proof (cases x)
  case Nil
  then show ?thesis using assms
    by (cases ws) (auto simp: match_exp_def isspace_def Let_def split: if_splits)
next
  case (Cons e r)
  have nd: "\<forall>c\<in>set ws. \<not> is_digit c" using assms(1) space_not_digit by blast
  have s: "startswith (r @ ws) 43 = startswith r 43" "startswith (r @ ws) 45 = startswith r 45"
    using assms(1) by (simp_all add: startswith_append isspace_def)
  show ?thesis
  proof (cases "startswith r 43 \<or> startswith r 45")
    case True
    then obtain sg r2 where r: "r = sg # r2" by (cases r) (auto simp: startswith_def)
    show ?thesis using assms(2) Cons True s
      unfolding r
      by (auto simp: match_exp_def Let_def takeWhile_append_none [OF nd] dropWhile_append_none [OF nd]
          split: if_splits)
  next
    case False
    then show ?thesis using assms(2) Cons s
      by (auto simp: match_exp_def Let_def takeWhile_append_none [OF nd] dropWhile_append_none [OF nd]
          split: if_splits)
  qed
qed

lemma match_number_trim:
  assumes "\<forall>c\<in>set ws. isspace c" and "match_number (x @ ws) = Some (v, r')"
  shows "\<exists>r. r' = r @ ws \<and> match_number x = Some (v, r)"
proof -
  let ?n = "startswith x 45"
  have n: "startswith (x @ ws) 45 = ?n"
    using assms(1) by (simp add: startswith_append isspace_def)
  have t: "(if ?n then tl (x @ ws) else x @ ws) = (if ?n then tl x else x) @ ws"
    by (cases x) (auto simp: startswith_def)
  obtain ds r1' where i: "match_int_part ((if ?n then tl x else x) @ ws) = Some (ds, r1')"
    using assms(2) unfolding match_number_def Let_def n t by (auto split: option.splits)
  from match_int_part_trim [OF assms(1) i] obtain r1 where
    r1: "r1' = r1 @ ws" "match_int_part (if ?n then tl x else x) = Some (ds, r1)" by auto
  obtain f r2' where f: "match_frac (r1 @ ws) = (f, r2')" by (cases "match_frac (r1 @ ws)")
  from match_frac_trim [OF assms(1) f] obtain r2 where
    r2: "r2' = r2 @ ws" "match_frac r1 = (f, r2)" by auto
  obtain ex r3' where e: "match_exp (r2 @ ws) = (ex, r3')" by (cases "match_exp (r2 @ ws)")
  from match_exp_trim [OF assms(1) e] obtain r3 where
    r3: "r3' = r3 @ ws" "match_exp r2 = (ex, r3)" by auto
  show ?thesis
    using assms(2) unfolding match_number_def Let_def n t i r1 
    by (auto simp: f r2 e r3 r1 split: if_splits)
qed

lemma match_frac_length: "match_frac x = (f, r) \<Longrightarrow> length r \<le> length x"
  by (auto simp: match_frac_def less_Suc_eq_le le_SucI length_dropWhile_le split: list.splits if_splits)

lemma match_exp_length: "match_exp x = (f, r) \<Longrightarrow> length r \<le> length x"
proof (cases x)
  case Nil
  assume "match_exp x = (f, r)"
  then show ?thesis using Nil by (simp add: match_exp_def)
next
  case (Cons e t)
  assume a: "match_exp x = (f, r)"
  have "length (dropWhile is_digit (drop k t)) \<le> length t" for k
    using length_dropWhile_le [of is_digit "drop k t"] by simp
  moreover have "length (dropWhile is_digit t) \<le> length t"
    by (rule length_dropWhile_le)
  ultimately show ?thesis using a Cons
    by (auto simp: match_exp_def Let_def le_SucI split: if_splits)
qed

lemma match_int_part_length: "match_int_part x = Some (ds, r) \<Longrightarrow> length r < length x"
  by (auto simp: match_int_part_def less_Suc_eq_le length_dropWhile_le split: list.splits if_splits)

lemma match_number_length:
  assumes "match_number x = Some (v, r)"
  shows "length r < length x"
proof -
  let ?y = "if startswith x 45 then tl x else x"
  obtain ds r1 where i: "match_int_part ?y = Some (ds, r1)"
    using assms unfolding match_number_def Let_def by (auto split: option.splits)
  obtain f r2 where f: "match_frac r1 = (f, r2)" by (cases "match_frac r1")
  obtain ex r3 where e: "match_exp r2 = (ex, r3)" by (cases "match_exp r2")
  have r: "r = r3" using assms unfolding match_number_def Let_def i by (auto simp: f e split: if_splits)
  have "length ?y \<le> length x" by simp
  then have "length r3 < length x"
    using match_int_part_length [OF i] match_frac_length [OF f] match_exp_length [OF e] by linarith
  then show ?thesis using r by simp
qed

lemma skip_ws_append_space:
  assumes "\<forall>c\<in>set ws. isspace c"
  shows "\<exists>ws'. (\<forall>c\<in>set ws'. isspace c) \<and> skip_ws (z @ ws) = skip_ws z @ ws'
          \<and> (skip_ws z \<noteq> [] \<longrightarrow> ws' = ws)"
proof (induction z)
  case Nil
  have "\<forall>c\<in>set (skip_ws ws). isspace c" using assms set_dropWhileD by fastforce
  then show ?case by auto
next
  case (Cons a z)
  show ?case
  proof (cases "is_json_ws a")
    case True
    then show ?thesis using Cons.IH by simp
  next
    case False
    then have "skip_ws ((a # z) @ ws) = skip_ws (a # z) @ ws" by simp
    then show ?thesis using assms by blast
  qed
qed

lemma startswith_skip_append:
  assumes "\<not> isspace c" and "\<forall>d\<in>set ws. isspace d"
  shows "startswith (skip_ws (x @ ws)) c = startswith (skip_ws x) c"
proof -
  obtain ws' where w: "\<forall>c\<in>set ws'. isspace c" "skip_ws (x @ ws) = skip_ws x @ ws'"
    using skip_ws_append_space [OF assms(2), of x] by blast
  show ?thesis unfolding w(2) using startswith_append [OF assms(1) w(1)] .
qed

lemma skip_ws_append_start:
  assumes "startswith (skip_ws x) c"
  shows "skip_ws (x @ ws) = skip_ws x @ ws" and "tl (skip_ws (x @ ws)) = tl (skip_ws x) @ ws"
proof -
  have ne: "skip_ws x \<noteq> []" using assms by (cases "skip_ws x") (auto simp: startswith_def)
  then have "\<not> (\<forall>a\<in>set x. is_json_ws a)" by (simp add: dropWhile_eq_Nil_conv)
  then obtain a where "a \<in> set x" "\<not> is_json_ws a" by blast
  then show 1: "skip_ws (x @ ws) = skip_ws x @ ws" by (rule dropWhile_append1)
  show "tl (skip_ws (x @ ws)) = tl (skip_ws x) @ ws" unfolding 1 using ne by simp
qed

lemma prefix_append_space:
  assumes "\<forall>c\<in>set p. \<not> isspace c" and "\<forall>d\<in>set ws. isspace d"
  shows "prefix p (x @ ws) = prefix p x"
  using assms(1)
proof (induction p arbitrary: x)
  case Nil
  then show ?case by simp
next
  case (Cons a p)
  show ?case
  proof (cases x)
    case Nil
    then show ?thesis using Cons.prems assms(2) by (cases ws) auto
  next
    case (Cons b y)
    then show ?thesis using Cons.IH Cons.prems by auto
  qed
qed

lemma scan_once_space:
  assumes "\<forall>c\<in>set ws. isspace c"
  shows "\<exists>e. scan_once n ws = Inl e"
proof (cases n)
  case 0
  then show ?thesis by simp
next
  case (Suc m)
  show ?thesis
  proof (cases ws)
    case Nil
    then show ?thesis using Suc by simp
  next
    case (Cons c t)
    then have c: "isspace c" using assms by simp
    have ne: "c \<noteq> 34" "c \<noteq> 123" "c \<noteq> 91" "c \<noteq> 110" "c \<noteq> 116" "c \<noteq> 102"
        "c \<noteq> 78" "c \<noteq> 73" "c \<noteq> 45" "c \<noteq> 48" "\<not> (49 \<le> c \<and> c \<le> 57)"
      using c by (auto simp: isspace_def)
    have "match_int_part ws = None"
      using ne Cons by (simp add: match_int_part_def)
    moreover have "\<not> startswith ws 45" using ne Cons by (simp add: startswith_def)
    ultimately have "match_number ws = None"
      by (simp add: match_number_def)
    then show ?thesis using Suc Cons ne by (simp add: scan_atom_def)
  qed
qed

lemma after_sep_length:
  assumes "startswith (skip_ws r1) c"
  shows "length (skip_ws (tl (skip_ws r1))) < length r1" and "length (tl (skip_ws r1)) < length r1"
proof -
  have ne: "skip_ws r1 \<noteq> []" using assms by (cases "skip_ws r1") (auto simp: startswith_def)
  have "length (skip_ws r1) \<le> length r1" by (rule length_dropWhile_le)
  then show 2: "length (tl (skip_ws r1)) < length r1" using ne by (cases "skip_ws r1") auto
  have "length (skip_ws (tl (skip_ws r1))) \<le> length (tl (skip_ws r1))" by (rule length_dropWhile_le)
  then show "length (skip_ws (tl (skip_ws r1))) < length r1" using 2 by linarith
qed

lemma JSONArray_trim_step:
  assumes IH1: "\<And>cs ws v r'. \<forall>c\<in>set ws. isspace c \<Longrightarrow> scan_once n (cs @ ws) = Inr (v, r') \<Longrightarrow>
            \<exists>r. r' = r @ ws \<and> length r < length cs
               \<and> (\<forall>m. 2 * length cs < m \<longrightarrow> scan_once m cs = Inr (v, r))"
    and IH3: "\<And>acc cs ws v r'. \<forall>c\<in>set ws. isspace c \<Longrightarrow> JSONArray n acc (cs @ ws) = Inr (v, r') \<Longrightarrow>
            \<exists>r. r' = r @ ws \<and> length r < length cs
               \<and> (\<forall>m. 2 * length cs + 1 < m \<longrightarrow> JSONArray m acc cs = Inr (v, r))"
    and sp: "\<forall>c\<in>set ws. isspace c"
    and run: "JSONArray (Suc n) acc (cs @ ws) = Inr (v, r')"
  shows "\<exists>r. r' = r @ ws \<and> length r < length cs
           \<and> (\<forall>m. 2 * length cs + 1 < m \<longrightarrow> JSONArray m acc cs = Inr (v, r))"
proof -
  obtain val r1' where a: "scan_once n (cs @ ws) = Inr (val, r1')"
    using run by (auto split: sum.splits)
  from IH1 [OF sp a] obtain r1 where r1: "r1' = r1 @ ws" "length r1 < length cs"
      "\<forall>m. 2 * length cs < m \<longrightarrow> scan_once m cs = Inr (val, r1)" by auto
  have s93: "startswith (skip_ws (r1 @ ws)) 93 = startswith (skip_ws r1) 93"
    by (rule startswith_skip_append [OF _ sp]) (simp add: isspace_def)
  have s44: "startswith (skip_ws (r1 @ ws)) 44 = startswith (skip_ws r1) 44"
    by (rule startswith_skip_append [OF _ sp]) (simp add: isspace_def)
  show ?thesis
  proof (cases "startswith (skip_ws r1) 93")
    case True
    let ?r = "tl (skip_ws r1)"
    have v: "v = JArray (acc @ [val])" and "r' = tl (skip_ws (r1 @ ws))"
      using run a r1(1) s93 True by auto
    then have 1: "r' = ?r @ ws" using skip_ws_append_start(2) [OF True] by simp
    have 2: "length ?r < length cs" using after_sep_length(2) [OF True] r1(2) by linarith
    have 3: "\<forall>m. 2 * length cs + 1 < m \<longrightarrow> JSONArray m acc cs = Inr (v, ?r)"
    proof (intro allI impI)
      fix m assume "2 * length cs + 1 < m"
      then obtain m' where m: "m = Suc m'" "2 * length cs < m'" by (cases m) auto
      show "JSONArray m acc cs = Inr (v, ?r)" using r1(3) m True v by simp
    qed
    show ?thesis using 1 2 3 by blast
  next
    case False
    then have c44: "startswith (skip_ws r1) 44"
      and rec: "JSONArray n (acc @ [val]) (skip_ws (tl (skip_ws (r1 @ ws)))) = Inr (v, r')"
      using run a r1(1) s93 s44 by (auto split: if_splits)
    let ?z = "tl (skip_ws r1)"
    have tz: "tl (skip_ws (r1 @ ws)) = ?z @ ws" by (rule skip_ws_append_start(2) [OF c44])
    obtain ws' where w: "\<forall>c\<in>set ws'. isspace c" "skip_ws (?z @ ws) = skip_ws ?z @ ws'"
        "skip_ws ?z \<noteq> [] \<longrightarrow> ws' = ws"
      using skip_ws_append_space [OF sp, of ?z] by blast
    have rec': "JSONArray n (acc @ [val]) (skip_ws ?z @ ws') = Inr (v, r')"
      using rec unfolding tz w(2) .
    from IH3 [OF w(1) rec'] obtain r where r: "r' = r @ ws'" "length r < length (skip_ws ?z)"
        "\<forall>m. 2 * length (skip_ws ?z) + 1 < m \<longrightarrow> JSONArray m (acc @ [val]) (skip_ws ?z) = Inr (v, r)"
      by auto
    have "skip_ws ?z \<noteq> []"
    proof
      assume "skip_ws ?z = []"
      with r(2) show False by simp
    qed
    then have w': "ws' = ws" using w(3) by blast
    have len: "length (skip_ws ?z) < length r1" by (rule after_sep_length(1) [OF c44])
    have 3: "\<forall>m. 2 * length cs + 1 < m \<longrightarrow> JSONArray m acc cs = Inr (v, r)"
    proof (intro allI impI)
      fix m assume "2 * length cs + 1 < m"
      then obtain m' where m: "m = Suc m'" "2 * length cs < m'" by (cases m) auto
      have "2 * length (skip_ws ?z) + 1 < m'" using len r1(2) m(2) by linarith
      then have "JSONArray m' (acc @ [val]) (skip_ws ?z) = Inr (v, r)" using r(3) by blast
      then show "JSONArray m acc cs = Inr (v, r)" using r1(3) m False c44 by simp
    qed
    have "length r < length cs" using r(2) len r1(2) by linarith
    then show ?thesis using r(1) w' 3 by blast
  qed
qed

lemma JSONObject_trim_step:
  assumes IH1: "\<And>cs ws v r'. \<forall>c\<in>set ws. isspace c \<Longrightarrow> scan_once n (cs @ ws) = Inr (v, r') \<Longrightarrow>
            \<exists>r. r' = r @ ws \<and> length r < length cs
               \<and> (\<forall>m. 2 * length cs < m \<longrightarrow> scan_once m cs = Inr (v, r))"
    and IH2: "\<And>acc cs ws v r'. \<forall>c\<in>set ws. isspace c \<Longrightarrow> JSONObject n acc (cs @ ws) = Inr (v, r') \<Longrightarrow>
            \<exists>r. r' = r @ ws \<and> length r < length cs
               \<and> (\<forall>m. 2 * length cs + 1 < m \<longrightarrow> JSONObject m acc cs = Inr (v, r))"
    and sp: "\<forall>c\<in>set ws. isspace c"
    and run: "JSONObject (Suc n) acc (cs @ ws) = Inr (v, r')"
  shows "\<exists>r. r' = r @ ws \<and> length r < length cs
           \<and> (\<forall>m. 2 * length cs + 1 < m \<longrightarrow> JSONObject m acc cs = Inr (v, r))"
proof -
  have q': "startswith (cs @ ws) 34" using run by (auto split: if_splits)
  then have q: "startswith cs 34" using startswith_append [OF _ sp, of 34 cs] by (simp add: isspace_def)
  then obtain cs1 where cs: "cs = 34 # cs1" by (cases cs) (auto simp: startswith_def)
  obtain key r1' where k: "scanstring (length (cs @ ws)) (cs1 @ ws) = Inr (key, r1')"
    using run q' cs by (auto split: sum.splits)
  from scanstring_trim [OF sp k] obtain r1 where r1: "r1' = r1 @ ws" "length r1 < length cs1"
      "\<forall>b'. scanstring b' cs1 = Inr (key, r1)" by auto
  have s58: "startswith (skip_ws (r1 @ ws)) 58 = startswith (skip_ws r1) 58"
    by (rule startswith_skip_append [OF _ sp]) (simp add: isspace_def)
  have c58: "startswith (skip_ws r1) 58"
    using run q' cs k r1(1) s58 by (auto split: if_splits)
  let ?z1 = "tl (skip_ws r1)"
  have tz1: "tl (skip_ws (r1 @ ws)) = ?z1 @ ws" by (rule skip_ws_append_start(2) [OF c58])
  obtain w1 where w1: "\<forall>c\<in>set w1. isspace c" "skip_ws (?z1 @ ws) = skip_ws ?z1 @ w1"
      "skip_ws ?z1 \<noteq> [] \<longrightarrow> w1 = ws"
    using skip_ws_append_space [OF sp, of ?z1] by blast
  obtain val r2' where a: "scan_once n (skip_ws ?z1 @ w1) = Inr (val, r2')"
    using run q' cs k r1(1) s58 c58 tz1 w1(2) by (auto split: if_splits sum.splits)
  from IH1 [OF w1(1) a] obtain r2 where r2: "r2' = r2 @ w1" "length r2 < length (skip_ws ?z1)"
      "\<forall>m. 2 * length (skip_ws ?z1) < m \<longrightarrow> scan_once m (skip_ws ?z1) = Inr (val, r2)" by auto
  have "skip_ws ?z1 \<noteq> []"
  proof
    assume "skip_ws ?z1 = []"
    with r2(2) show False by simp
  qed
  then have w1': "w1 = ws" using w1(3) by blast
  have len1: "length (skip_ws ?z1) < length r1" by (rule after_sep_length(1) [OF c58])
  have s125: "startswith (skip_ws (r2 @ ws)) 125 = startswith (skip_ws r2) 125"
    by (rule startswith_skip_append [OF _ sp]) (simp add: isspace_def)
  have s44: "startswith (skip_ws (r2 @ ws)) 44 = startswith (skip_ws r2) 44"
    by (rule startswith_skip_append [OF _ sp]) (simp add: isspace_def)
  have run2: "(if startswith (skip_ws r2) 125
        then Inr (JObject (dict_set acc key val), tl (skip_ws (r2 @ ws)))
        else if \<not> startswith (skip_ws r2) 44
        then Inl (Errmsg (ascii ''Expecting ',' delimiter'') (length (skip_ws (r2 @ ws))))
        else JSONObject n (dict_set acc key val) (skip_ws (tl (skip_ws (r2 @ ws))))) = Inr (v, r')"
    using run q' cs k r1(1) s58 c58 tz1 w1(2) a r2(1) w1' s125 s44 by (auto split: if_splits)
  have unfold: "JSONObject (Suc m') acc cs =
       (if startswith (skip_ws r2) 125
        then Inr (JObject (dict_set acc key val), tl (skip_ws r2))
        else if \<not> startswith (skip_ws r2) 44
        then Inl (Errmsg (ascii ''Expecting ',' delimiter'') (length (skip_ws r2)))
        else JSONObject m' (dict_set acc key val) (skip_ws (tl (skip_ws r2))))"
    if "2 * length cs < m'" for m'
  proof -
    have "2 * length (skip_ws ?z1) < m'" using that len1 r1(2) cs by simp
    then have "scan_once m' (skip_ws ?z1) = Inr (val, r2)" using r2(3) by blast
    then show ?thesis using cs r1(3) c58 by (simp add: startswith_def)
  qed
  show ?thesis
  proof (cases "startswith (skip_ws r2) 125")
    case True
    let ?r = "tl (skip_ws r2)"
    have v: "v = JObject (dict_set acc key val)" and "r' = tl (skip_ws (r2 @ ws))"
      using run2 True by auto
    then have 1: "r' = ?r @ ws" using skip_ws_append_start(2) [OF True] by simp
    have 2: "length ?r < length cs"
      using after_sep_length(2) [OF True] r2(2) len1 r1(2) cs by simp
    have 3: "\<forall>m. 2 * length cs + 1 < m \<longrightarrow> JSONObject m acc cs = Inr (v, ?r)"
    proof (intro allI impI)
      fix m assume "2 * length cs + 1 < m"
      then obtain m' where m: "m = Suc m'" "2 * length cs < m'" by (cases m) auto
      show "JSONObject m acc cs = Inr (v, ?r)" unfolding m(1) unfold [OF m(2)] using True v by simp
    qed
    show ?thesis using 1 2 3 by blast
  next
    case False
    then have c44: "startswith (skip_ws r2) 44"
      and rec: "JSONObject n (dict_set acc key val) (skip_ws (tl (skip_ws (r2 @ ws)))) = Inr (v, r')"
      using run2 by (auto split: if_splits)
    let ?z = "tl (skip_ws r2)"
    have tz: "tl (skip_ws (r2 @ ws)) = ?z @ ws" by (rule skip_ws_append_start(2) [OF c44])
    obtain ws' where w: "\<forall>c\<in>set ws'. isspace c" "skip_ws (?z @ ws) = skip_ws ?z @ ws'"
        "skip_ws ?z \<noteq> [] \<longrightarrow> ws' = ws"
      using skip_ws_append_space [OF sp, of ?z] by blast
    have rec': "JSONObject n (dict_set acc key val) (skip_ws ?z @ ws') = Inr (v, r')"
      using rec unfolding tz w(2) .
    from IH2 [OF w(1) rec'] obtain r where r: "r' = r @ ws'" "length r < length (skip_ws ?z)"
        "\<forall>m. 2 * length (skip_ws ?z) + 1 < m \<longrightarrow>
             JSONObject m (dict_set acc key val) (skip_ws ?z) = Inr (v, r)"
      by auto
    have "skip_ws ?z \<noteq> []"
    proof
      assume "skip_ws ?z = []"
      with r(2) show False by simp
    qed
    then have w': "ws' = ws" using w(3) by blast
    have len: "length (skip_ws ?z) < length r2" by (rule after_sep_length(1) [OF c44])
    have 3: "\<forall>m. 2 * length cs + 1 < m \<longrightarrow> JSONObject m acc cs = Inr (v, r)"
    proof (intro allI impI)
      fix m assume "2 * length cs + 1 < m"
      then obtain m' where m: "m = Suc m'" "2 * length cs < m'" by (cases m) auto
      have "2 * length (skip_ws ?z) + 1 < m'" using len r2(2) len1 r1(2) cs m(2) by simp
      then have "JSONObject m' (dict_set acc key val) (skip_ws ?z) = Inr (v, r)" using r(3) by blast
      then show "JSONObject m acc cs = Inr (v, r)"
        unfolding m(1) unfold [OF m(2)] using False c44 by simp
    qed
    have "length r < length cs" using r(2) len r2(2) len1 r1(2) cs by simp
    then show ?thesis using r(1) w' 3 by blast
  qed
qed

lemma drop_prefix_append:
  assumes "prefix p cs" and "length p = k"
  shows "drop k (cs @ ws) = drop k cs @ ws"
proof -
  have "k \<le> length cs" using assms prefix_length_le by blast
  then show ?thesis by simp
qed

lemma scan_atom_trim:
  assumes sp: "\<forall>c\<in>set ws. isspace c"
    and run: "scan_atom (cs @ ws) = Inr (v, r')"
  shows "\<exists>r. r' = r @ ws \<and> length r < length cs \<and> scan_atom cs = Inr (v, r)"
proof -
  have p: "prefix (ascii ''null'') (cs @ ws) = prefix (ascii ''null'') cs"
      "prefix (ascii ''true'') (cs @ ws) = prefix (ascii ''true'') cs"
      "prefix (ascii ''false'') (cs @ ws) = prefix (ascii ''false'') cs"
      "prefix (ascii ''NaN'') (cs @ ws) = prefix (ascii ''NaN'') cs"
      "prefix (ascii ''Infinity'') (cs @ ws) = prefix (ascii ''Infinity'') cs"
      "prefix (ascii ''-Infinity'') (cs @ ws) = prefix (ascii ''-Infinity'') cs"
    by (rule prefix_append_space [OF _ sp], simp add: isspace_def)+
  have d: "prefix q cs \<Longrightarrow> length q = k \<Longrightarrow> 0 < k \<Longrightarrow>
           drop k (cs @ ws) = drop k cs @ ws \<and> length (drop k cs) < length cs" for q k
    using drop_prefix_append [of q cs k ws] prefix_length_le [of q cs] by auto
  consider (lit) "prefix (ascii ''null'') cs \<or> prefix (ascii ''true'') cs \<or> prefix (ascii ''false'') cs
        \<or> prefix (ascii ''NaN'') cs \<or> prefix (ascii ''Infinity'') cs \<or> prefix (ascii ''-Infinity'') cs"
    | (num) "\<not> prefix (ascii ''null'') cs" "\<not> prefix (ascii ''true'') cs" "\<not> prefix (ascii ''false'') cs"
        "\<not> prefix (ascii ''NaN'') cs" "\<not> prefix (ascii ''Infinity'') cs" "\<not> prefix (ascii ''-Infinity'') cs"
    by blast
  then show ?thesis
  proof cases
    case num
    then obtain a: "match_number (cs @ ws) = Some (v, r')"
      using run unfolding scan_atom_def p by (auto split: option.splits)
    from match_number_trim [OF sp a] obtain r where r: "r' = r @ ws" "match_number cs = Some (v, r)"
      by auto
    have "scan_atom cs = Inr (v, r)" using num r(2) by (simp add: scan_atom_def)
    then show ?thesis using r match_number_length [OF r(2)] by blast
  next
    case lit
    have d1: "prefix (ascii ''null'') cs \<Longrightarrow> drop 4 (cs @ ws) = drop 4 cs @ ws \<and> length (drop 4 cs) < length cs"
      using d [of "ascii ''null''" 4] by simp
    have d2: "prefix (ascii ''true'') cs \<Longrightarrow> drop 4 (cs @ ws) = drop 4 cs @ ws \<and> length (drop 4 cs) < length cs"
      using d [of "ascii ''true''" 4] by simp
    have d3: "prefix (ascii ''false'') cs \<Longrightarrow> drop 5 (cs @ ws) = drop 5 cs @ ws \<and> length (drop 5 cs) < length cs"
      using d [of "ascii ''false''" 5] by simp
    have d4: "prefix (ascii ''NaN'') cs \<Longrightarrow> drop 3 (cs @ ws) = drop 3 cs @ ws \<and> length (drop 3 cs) < length cs"
      using d [of "ascii ''NaN''" 3] by simp
    have d5: "prefix (ascii ''Infinity'') cs \<Longrightarrow> drop 8 (cs @ ws) = drop 8 cs @ ws \<and> length (drop 8 cs) < length cs"
      using d [of "ascii ''Infinity''" 8] by simp
    have d6: "prefix (ascii ''-Infinity'') cs \<Longrightarrow> drop 9 (cs @ ws) = drop 9 cs @ ws \<and> length (drop 9 cs) < length cs"
      using d [of "ascii ''-Infinity''" 9] by simp
    have e: "scan_atom (cs @ ws) =
     (if prefix (ascii ''null'') cs then Inr (JNull, drop 4 (cs @ ws))
      else if prefix (ascii ''true'') cs then Inr (JBool True, drop 4 (cs @ ws))
      else if prefix (ascii ''false'') cs then Inr (JBool False, drop 5 (cs @ ws))
      else if prefix (ascii ''NaN'') cs then Inr (JFloat (ascii ''NaN''), drop 3 (cs @ ws))
      else if prefix (ascii ''Infinity'') cs then Inr (JFloat (ascii ''Infinity''), drop 8 (cs @ ws))
      else Inr (JFloat (ascii ''-Infinity''), drop 9 (cs @ ws)))"
      unfolding scan_atom_def p using lit by (auto simp del: drop_append ascii_def)
    have f: "scan_atom cs =
     (if prefix (ascii ''null'') cs then Inr (JNull, drop 4 cs)
      else if prefix (ascii ''true'') cs then Inr (JBool True, drop 4 cs)
      else if prefix (ascii ''false'') cs then Inr (JBool False, drop 5 cs)
      else if prefix (ascii ''NaN'') cs then Inr (JFloat (ascii ''NaN''), drop 3 cs)
      else if prefix (ascii ''Infinity'') cs then Inr (JFloat (ascii ''Infinity''), drop 8 cs)
      else Inr (JFloat (ascii ''-Infinity''), drop 9 cs))"
      unfolding scan_atom_def using lit by (auto simp del: ascii_def)
    show ?thesis
      using run lit d1 d2 d3 d4 d5 d6 unfolding e f
      by (auto simp del: drop_append ascii_def split: if_splits)
  qed
qed

lemma scan_once_trim_step:
  assumes IH2: "\<And>acc cs ws v r'. \<forall>c\<in>set ws. isspace c \<Longrightarrow> JSONObject n acc (cs @ ws) = Inr (v, r') \<Longrightarrow>
            \<exists>r. r' = r @ ws \<and> length r < length cs
               \<and> (\<forall>m. 2 * length cs + 1 < m \<longrightarrow> JSONObject m acc cs = Inr (v, r))"
    and IH3: "\<And>acc cs ws v r'. \<forall>c\<in>set ws. isspace c \<Longrightarrow> JSONArray n acc (cs @ ws) = Inr (v, r') \<Longrightarrow>
            \<exists>r. r' = r @ ws \<and> length r < length cs
               \<and> (\<forall>m. 2 * length cs + 1 < m \<longrightarrow> JSONArray m acc cs = Inr (v, r))"
    and sp: "\<forall>c\<in>set ws. isspace c"
    and run: "scan_once (Suc n) (cs @ ws) = Inr (v, r')"
  shows "\<exists>r. r' = r @ ws \<and> length r < length cs
           \<and> (\<forall>m. 2 * length cs < m \<longrightarrow> scan_once m cs = Inr (v, r))"
proof (cases cs)
  case Nil
  then show ?thesis using run scan_once_space [OF sp, of "Suc n"] by auto
next
  case (Cons c t)
  note cs = Cons
  have fuel: "\<exists>m'. m = Suc m' \<and> 2 * length t + 1 < m'" if "2 * length cs < m" for m
    using that cs by (cases m) auto
  consider (str) "c = 34" | (obj) "c = 123" | (arr) "c = 91" | (atom) "c \<noteq> 34" "c \<noteq> 123" "c \<noteq> 91"
    by blast
  then show ?thesis
  proof cases
    case str
    then obtain s where s: "scanstring (length (cs @ ws)) (t @ ws) = Inr (s, r')" "v = JString s"
      using run cs by (auto split: sum.splits)
    from scanstring_trim [OF sp s(1)] obtain r where r: "r' = r @ ws" "length r < length t"
        "\<forall>b'. scanstring b' t = Inr (s, r)" by auto
    have "\<forall>m. 2 * length cs < m \<longrightarrow> scan_once m cs = Inr (v, r)"
    proof (intro allI impI)
      fix m assume "2 * length cs < m"
      then obtain m' where "m = Suc m'" using fuel by blast
      then show "scan_once m cs = Inr (v, r)" using cs str r(3) s(2) by simp
    qed
    then show ?thesis using r cs by auto
  next
    case atom
    then have a: "scan_atom (cs @ ws) = Inr (v, r')" using run cs by simp
    from scan_atom_trim [OF sp a] obtain r where r: "r' = r @ ws" "length r < length cs"
        "scan_atom cs = Inr (v, r)" by auto
    have "\<forall>m. 2 * length cs < m \<longrightarrow> scan_once m cs = Inr (v, r)"
    proof (intro allI impI)
      fix m assume "2 * length cs < m"
      then obtain m' where "m = Suc m'" using fuel by blast
      then show "scan_once m cs = Inr (v, r)" using cs atom r(3) by simp
    qed
    then show ?thesis using r by auto
  next
    case obj
    have s125: "startswith (skip_ws (t @ ws)) 125 = startswith (skip_ws t) 125"
      by (rule startswith_skip_append [OF _ sp]) (simp add: isspace_def)
    show ?thesis
    proof (cases "startswith (skip_ws t) 125")
      case True
      let ?r = "tl (skip_ws t)"
      have v: "v = JObject []" and "r' = tl (skip_ws (t @ ws))"
        using run cs obj s125 True by auto
      then have 1: "r' = ?r @ ws" using skip_ws_append_start(2) [OF True] by simp
      have 2: "length ?r < length cs" using after_sep_length(2) [OF True] cs by simp
      have "\<forall>m. 2 * length cs < m \<longrightarrow> scan_once m cs = Inr (v, ?r)"
      proof (intro allI impI)
        fix m assume "2 * length cs < m"
        then obtain m' where "m = Suc m'" using fuel by blast
        then show "scan_once m cs = Inr (v, ?r)" using cs obj True v by simp
      qed
      then show ?thesis using 1 2 by blast
    next
      case False
      then have rec: "JSONObject n [] (skip_ws (t @ ws)) = Inr (v, r')"
        using run cs obj s125 by simp
      obtain ws' where w: "\<forall>c\<in>set ws'. isspace c" "skip_ws (t @ ws) = skip_ws t @ ws'"
          "skip_ws t \<noteq> [] \<longrightarrow> ws' = ws"
        using skip_ws_append_space [OF sp, of t] by blast
      from IH2 [OF w(1) rec [unfolded w(2)]] obtain r where r: "r' = r @ ws'"
          "length r < length (skip_ws t)"
          "\<forall>m. 2 * length (skip_ws t) + 1 < m \<longrightarrow> JSONObject m [] (skip_ws t) = Inr (v, r)"
        by auto
      have "skip_ws t \<noteq> []"
      proof
        assume "skip_ws t = []"
        with r(2) show False by simp
      qed
      then have w': "ws' = ws" using w(3) by blast
      have le: "length (skip_ws t) \<le> length t" by (rule length_dropWhile_le)
      have "\<forall>m. 2 * length cs < m \<longrightarrow> scan_once m cs = Inr (v, r)"
      proof (intro allI impI)
        fix m assume "2 * length cs < m"
        then obtain m' where m: "m = Suc m'" "2 * length t + 1 < m'" using fuel by blast
        then have "2 * length (skip_ws t) + 1 < m'" using le by linarith
        then have "JSONObject m' [] (skip_ws t) = Inr (v, r)" using r(3) by blast
        then show "scan_once m cs = Inr (v, r)" using cs obj False m(1) by simp
      qed
      moreover have "length r < length cs" using r(2) le cs by simp
      ultimately show ?thesis using r(1) w' by blast
    qed
  next
    case arr
    have s93: "startswith (skip_ws (t @ ws)) 93 = startswith (skip_ws t) 93"
      by (rule startswith_skip_append [OF _ sp]) (simp add: isspace_def)
    show ?thesis
    proof (cases "startswith (skip_ws t) 93")
      case True
      let ?r = "tl (skip_ws t)"
      have v: "v = JArray []" and "r' = tl (skip_ws (t @ ws))"
        using run cs arr s93 True by auto
      then have 1: "r' = ?r @ ws" using skip_ws_append_start(2) [OF True] by simp
      have 2: "length ?r < length cs" using after_sep_length(2) [OF True] cs by simp
      have "\<forall>m. 2 * length cs < m \<longrightarrow> scan_once m cs = Inr (v, ?r)"
      proof (intro allI impI)
        fix m assume "2 * length cs < m"
        then obtain m' where "m = Suc m'" using fuel by blast
        then show "scan_once m cs = Inr (v, ?r)" using cs arr True v by simp
      qed
      then show ?thesis using 1 2 by blast
    next
      case False
      then have rec: "JSONArray n [] (skip_ws (t @ ws)) = Inr (v, r')"
        using run cs arr s93 by simp
      obtain ws' where w: "\<forall>c\<in>set ws'. isspace c" "skip_ws (t @ ws) = skip_ws t @ ws'"
          "skip_ws t \<noteq> [] \<longrightarrow> ws' = ws"
        using skip_ws_append_space [OF sp, of t] by blast
      from IH3 [OF w(1) rec [unfolded w(2)]] obtain r where r: "r' = r @ ws'"
          "length r < length (skip_ws t)"
          "\<forall>m. 2 * length (skip_ws t) + 1 < m \<longrightarrow> JSONArray m [] (skip_ws t) = Inr (v, r)"
        by auto
      have "skip_ws t \<noteq> []"
      proof
        assume "skip_ws t = []"
        with r(2) show False by simp
      qed
      then have w': "ws' = ws" using w(3) by blast
      have le: "length (skip_ws t) \<le> length t" by (rule length_dropWhile_le)
      have "\<forall>m. 2 * length cs < m \<longrightarrow> scan_once m cs = Inr (v, r)"
      proof (intro allI impI)
        fix m assume "2 * length cs < m"
        then obtain m' where m: "m = Suc m'" "2 * length t + 1 < m'" using fuel by blast
        then have "2 * length (skip_ws t) + 1 < m'" using le by linarith
        then have "JSONArray m' [] (skip_ws t) = Inr (v, r)" using r(3) by blast
        then show "scan_once m cs = Inr (v, r)" using cs arr False m(1) by simp
      qed
      moreover have "length r < length cs" using r(2) le cs by simp
      ultimately show ?thesis using r(1) w' by blast
    qed
  qed
qed

lemma scan_trim:
  "(\<forall>cs ws v r'. (\<forall>c\<in>set ws. isspace c) \<longrightarrow> scan_once n (cs @ ws) = Inr (v, r') \<longrightarrow>
      (\<exists>r. r' = r @ ws \<and> length r < length cs
          \<and> (\<forall>m. 2 * length cs < m \<longrightarrow> scan_once m cs = Inr (v, r))))
 \<and> (\<forall>acc cs ws v r'. (\<forall>c\<in>set ws. isspace c) \<longrightarrow> JSONObject n acc (cs @ ws) = Inr (v, r') \<longrightarrow>
      (\<exists>r. r' = r @ ws \<and> length r < length cs
          \<and> (\<forall>m. 2 * length cs + 1 < m \<longrightarrow> JSONObject m acc cs = Inr (v, r))))
 \<and> (\<forall>acc cs ws v r'. (\<forall>c\<in>set ws. isspace c) \<longrightarrow> JSONArray n acc (cs @ ws) = Inr (v, r') \<longrightarrow>
      (\<exists>r. r' = r @ ws \<and> length r < length cs
          \<and> (\<forall>m. 2 * length cs + 1 < m \<longrightarrow> JSONArray m acc cs = Inr (v, r))))"
proof (induction n)
  case 0
  show ?case by simp
next
  case (Suc n)
  have IH1: "\<And>cs ws v r'. \<forall>c\<in>set ws. isspace c \<Longrightarrow> scan_once n (cs @ ws) = Inr (v, r') \<Longrightarrow>
            \<exists>r. r' = r @ ws \<and> length r < length cs
               \<and> (\<forall>m. 2 * length cs < m \<longrightarrow> scan_once m cs = Inr (v, r))"
    using Suc.IH by blast
  have IH2: "\<And>acc cs ws v r'. \<forall>c\<in>set ws. isspace c \<Longrightarrow> JSONObject n acc (cs @ ws) = Inr (v, r') \<Longrightarrow>
            \<exists>r. r' = r @ ws \<and> length r < length cs
               \<and> (\<forall>m. 2 * length cs + 1 < m \<longrightarrow> JSONObject m acc cs = Inr (v, r))"
    using Suc.IH by blast
  have IH3: "\<And>acc cs ws v r'. \<forall>c\<in>set ws. isspace c \<Longrightarrow> JSONArray n acc (cs @ ws) = Inr (v, r') \<Longrightarrow>
            \<exists>r. r' = r @ ws \<and> length r < length cs
               \<and> (\<forall>m. 2 * length cs + 1 < m \<longrightarrow> JSONArray m acc cs = Inr (v, r))"
    using Suc.IH by blast
  show ?case
  proof (intro conjI allI impI)
    fix cs ws v r'
    assume a: "\<forall>c\<in>set ws. isspace c" and b: "scan_once (Suc n) (cs @ ws) = Inr (v, r')"
    show "\<exists>r. r' = r @ ws \<and> length r < length cs
          \<and> (\<forall>m. 2 * length cs < m \<longrightarrow> scan_once m cs = Inr (v, r))"
      using scan_once_trim_step [OF IH2 IH3 a b] by blast
  next
    fix acc cs ws v r'
    assume a: "\<forall>c\<in>set ws. isspace c" and b: "JSONObject (Suc n) acc (cs @ ws) = Inr (v, r')"
    show "\<exists>r. r' = r @ ws \<and> length r < length cs
          \<and> (\<forall>m. 2 * length cs + 1 < m \<longrightarrow> JSONObject m acc cs = Inr (v, r))"
      using JSONObject_trim_step [OF IH1 IH2 a b] by blast
  next
    fix acc cs ws v r'
    assume a: "\<forall>c\<in>set ws. isspace c" and b: "JSONArray (Suc n) acc (cs @ ws) = Inr (v, r')"
    show "\<exists>r. r' = r @ ws \<and> length r < length cs
          \<and> (\<forall>m. 2 * length cs + 1 < m \<longrightarrow> JSONArray m acc cs = Inr (v, r))"
      using JSONArray_trim_step [OF IH1 IH3 a b] by blast
  qed
qed

lemma scan_once_trim:
  assumes "\<forall>c\<in>set ws. isspace c" and "scan_once n (cs @ ws) = Inr (v, r')"
  shows "\<exists>r. r' = r @ ws \<and> length r < length cs
          \<and> (\<forall>m. 2 * length cs < m \<longrightarrow> scan_once m cs = Inr (v, r))"
  using scan_trim [of n] assms by blast

lemma fuel_for_eq: "fuel_for s = 2 * length s + 1"
  by (induction s) auto

lemma scan_once_bad_start:
  assumes "c \<notin> {34, 123, 91, 110, 116, 102, 78, 73, 45}" and "\<not> is_digit c"
  shows "\<exists>e. scan_once n (c # t) = Inl e"
proof (cases n)
  case 0
  then show ?thesis by simp
next
  case (Suc m)
  have "match_int_part (c # t) = None"
    using assms by (auto simp: match_int_part_def is_digit_def)
  moreover have "\<not> startswith (c # t) 45" using assms by (simp add: startswith_def)
  ultimately have "match_number (c # t) = None"
    by (simp add: match_number_def)
  then show ?thesis using Suc assms by (simp add: scan_atom_def)
qed

lemma scan_once_start:
  assumes "scan_once n cs = Inr (v, r)"
  shows "cs \<noteq> [] \<and> \<not> isspace (hd cs) \<and> hd cs \<noteq> 65279"
proof (cases cs)
  case Nil
  then show ?thesis using assms by (cases n) auto
next
  case (Cons c t)
  have "c \<in> {34, 123, 91, 110, 116, 102, 78, 73, 45} \<or> is_digit c"
    using scan_once_bad_start [of c n t] assms Cons by auto
  then show ?thesis using Cons by (auto simp: isspace_def is_digit_def)
qed

lemma skip_ws_all: "skip_ws (r @ w) = [] \<Longrightarrow> skip_ws r = []"
  by (simp add: dropWhile_eq_Nil_conv)

lemma json_loads_strip:
  assumes "json_loads s = Inr v"
  shows "json_loads (py_strip s) = Inr v"
proof -
  let ?cs = "skip_ws s"
  obtain r0 where run: "scan_once (fuel_for s) ?cs = Inr (v, r0)" and end0: "skip_ws r0 = []"
    using assms unfolding json_loads_def
    by (auto split: if_splits sum.splits scan_fail.splits)
  have st: "?cs \<noteq> []" "\<not> isspace (hd ?cs)" "hd ?cs \<noteq> 65279"
    using scan_once_start [OF run] by auto
  have pre: "\<forall>c\<in>set (takeWhile is_json_ws s). isspace c"
    using set_takeWhileD json_ws_isspace by fastforce
  have "dropWhile isspace (takeWhile is_json_ws s @ ?cs) = dropWhile isspace ?cs"
    using pre by (intro dropWhile_append2) blast
  moreover have "dropWhile isspace ?cs = ?cs" using st(1,2) by (cases ?cs) auto
  ultimately have l: "dropWhile isspace s = ?cs" by simp
  let ?t = "py_strip s"
  let ?w = "rev (takeWhile isspace (rev ?cs))"
  have t: "?t = rev (dropWhile isspace (rev ?cs))" by (simp add: py_strip_def l)
  have split: "?cs = ?t @ ?w"
    unfolding t by (metis rev_append rev_rev_ident takeWhile_dropWhile_id)
  have sp: "\<forall>c\<in>set ?w. isspace c" using set_takeWhileD by fastforce
  have run': "scan_once (fuel_for s) (?t @ ?w) = Inr (v, r0)" using run split by simp
  from scan_once_trim [OF sp run'] obtain r where r: "r0 = r @ ?w" "length r < length ?t"
      "\<forall>m. 2 * length ?t < m \<longrightarrow> scan_once m ?t = Inr (v, r)" by blast
  have ne: "?t \<noteq> []" using r(2) by auto
  then have hd: "hd ?t = hd ?cs" using split by (metis hd_append2)
  have nb: "\<not> startswith ?t 65279" using ne hd st(3) by (cases ?t) (auto simp: startswith_def)
  have "\<not> is_json_ws (hd ?t)" using hd st(2) json_ws_isspace by auto
  then have sk: "skip_ws ?t = ?t" using ne by (cases ?t) auto
  have "2 * length ?t < fuel_for ?t" unfolding fuel_for_eq by simp
  then have "scan_once (fuel_for ?t) ?t = Inr (v, r)" using r(3) by blast
  moreover have "skip_ws r = []" using end0 r(1) skip_ws_all by blast
  ultimately show ?thesis using nb sk by (simp add: json_loads_def)
qed

lemma json_loads_nonempty: "json_loads t = Inr v \<Longrightarrow> t \<noteq> []"
  by (auto simp: json_loads_def startswith_def)

lemma json_loads_object_start:
  assumes "json_loads t = Inr (JObject kvs)"
  shows "\<not> startswith t 34"
proof
  assume "startswith t 34"
  then obtain u where u: "t = 34 # u" by (cases t) (auto simp: startswith_def)
  show False using assms unfolding u json_loads_def
    by (auto simp: startswith_def is_json_ws_def split: sum.splits scan_fail.splits if_splits)
qed

section \<open>The fuel is enough\<close>

text \<open>
  With the fuel \<open>json_loads\<close> gives, no run of the decoder ends for want of fuel: the
  model never raises \<open>RecursionError\<close>, on any text.
\<close>

lemma cons_char_fuel: "cons_char c x = Inl NoFuel \<longleftrightarrow> x = Inl NoFuel"
  by (auto simp: cons_char_def split: sum.splits)

lemma scanstring_fuel: "scanstring b cs \<noteq> Inl NoFuel"
  by (induction b cs rule: scanstring.induct)
     (auto simp: cons_char_fuel split: list.splits option.splits)

lemma scan_atom_fuel: "scan_atom cs \<noteq> Inl NoFuel"
  by (auto simp: scan_atom_def split: option.splits)

lemma scan_once_progress: "scan_once n cs = Inr (v, r) \<Longrightarrow> length r < length cs"
  using scan_once_trim [of "[]" n cs v r] by auto

lemma scanstring_progress: "scanstring b cs = Inr (k, r) \<Longrightarrow> length r < length cs"
  using scanstring_trim [of "[]" b cs k r] by auto

lemma JSONArray_fuel_step:
  assumes IH1: "\<And>cs. 2 * length cs < n \<Longrightarrow> scan_once n cs \<noteq> Inl NoFuel"
    and IH3: "\<And>acc cs. 2 * length cs + 1 < n \<Longrightarrow> JSONArray n acc cs \<noteq> Inl NoFuel"
    and f: "2 * length cs + 1 < Suc n"
  shows "JSONArray (Suc n) acc cs \<noteq> Inl NoFuel"
proof (cases "scan_once n cs")
  case (Inl e)
  have "e \<noteq> NoFuel" using IH1 [of cs] f Inl by auto
  then show ?thesis using Inl by simp
next
  case (Inr p)
  obtain val r1 where p: "p = (val, r1)" by (cases p)
  have l1: "length r1 < length cs" using Inr p scan_once_progress by blast
  show ?thesis
  proof (cases "\<not> startswith (skip_ws r1) 93 \<and> startswith (skip_ws r1) 44")
    case True
    then have "length (skip_ws (tl (skip_ws r1))) < length r1"
      using after_sep_length(1) by blast
    then have "2 * length (skip_ws (tl (skip_ws r1))) + 1 < n" using l1 f by linarith
    then have "JSONArray n (acc @ [val]) (skip_ws (tl (skip_ws r1))) \<noteq> Inl NoFuel"
      by (rule IH3)
    then show ?thesis using Inr p True by simp
  next
    case False
    then show ?thesis using Inr p by auto
  qed
qed

lemma JSONObject_fuel_step:
  assumes IH1: "\<And>cs. 2 * length cs < n \<Longrightarrow> scan_once n cs \<noteq> Inl NoFuel"
    and IH2: "\<And>acc cs. 2 * length cs + 1 < n \<Longrightarrow> JSONObject n acc cs \<noteq> Inl NoFuel"
    and f: "2 * length cs + 1 < Suc n"
  shows "JSONObject (Suc n) acc cs \<noteq> Inl NoFuel"
proof (cases "startswith cs 34")
  case False
  then show ?thesis by simp
next
  case True
  then have ne: "cs \<noteq> []" by (auto simp: startswith_def)
  show ?thesis
  proof (cases "scanstring (length cs) (tl cs)")
    case (Inl e)
    then have "e \<noteq> NoFuel" using scanstring_fuel [of "length cs" "tl cs"] by auto
    then show ?thesis using True Inl by simp
  next
    case (Inr p)
    obtain key r1 where p: "p = (key, r1)" by (cases p)
    have l1: "length r1 < length cs"
      using scanstring_progress [of "length cs" "tl cs" key r1] Inr p ne by (cases cs) auto
    show ?thesis
    proof (cases "startswith (skip_ws r1) 58")
      case False
      then show ?thesis using True Inr p by simp
    next
      case c58: True
      let ?x = "skip_ws (tl (skip_ws r1))"
      have lx: "length ?x < length r1" using after_sep_length(1) [OF c58] .
      show ?thesis
      proof (cases "scan_once n ?x")
        case (Inl e)
        have "2 * length ?x < n" using lx l1 f by linarith
        then have "e \<noteq> NoFuel" using IH1 [of ?x] Inl by auto
        then show ?thesis using True Inr p c58 Inl by simp
      next
        case b: (Inr q)
        obtain val r2 where q: "q = (val, r2)" by (cases q)
        have l2: "length r2 < length ?x" using b q scan_once_progress by blast
        show ?thesis
        proof (cases "\<not> startswith (skip_ws r2) 125 \<and> startswith (skip_ws r2) 44")
          case t: True
          then have "length (skip_ws (tl (skip_ws r2))) < length r2"
            using after_sep_length(1) by blast
          then have "2 * length (skip_ws (tl (skip_ws r2))) + 1 < n" using l2 lx l1 f by linarith
          then have "JSONObject n (dict_set acc key val) (skip_ws (tl (skip_ws r2))) \<noteq> Inl NoFuel"
            by (rule IH2)
          then show ?thesis using True Inr p c58 b q t by simp
        next
          case False
          then show ?thesis using True Inr p c58 b q by auto
        qed
      qed
    qed
  qed
qed

lemma scan_once_fuel_step:
  assumes IH2: "\<And>acc cs. 2 * length cs + 1 < n \<Longrightarrow> JSONObject n acc cs \<noteq> Inl NoFuel"
    and IH3: "\<And>acc cs. 2 * length cs + 1 < n \<Longrightarrow> JSONArray n acc cs \<noteq> Inl NoFuel"
    and f: "2 * length cs < Suc n"
  shows "scan_once (Suc n) cs \<noteq> Inl NoFuel"
proof (cases cs)
  case Nil
  then show ?thesis by simp
next
  case (Cons c t)
  have "length (skip_ws t) \<le> length t" by (rule length_dropWhile_le)
  then have le: "2 * length (skip_ws t) + 1 < n" using f Cons by simp
  have s: "scanstring (length cs) t \<noteq> Inl NoFuel" by (rule scanstring_fuel)
  show ?thesis
    using Cons IH2 [OF le] IH3 [OF le] s scan_atom_fuel [of cs]
    by (auto split: sum.splits)
qed

lemma fuel_enough:
  "(\<forall>cs. 2 * length cs < n \<longrightarrow> scan_once n cs \<noteq> Inl NoFuel)
 \<and> (\<forall>acc cs. 2 * length cs + 1 < n \<longrightarrow> JSONObject n acc cs \<noteq> Inl NoFuel)
 \<and> (\<forall>acc cs. 2 * length cs + 1 < n \<longrightarrow> JSONArray n acc cs \<noteq> Inl NoFuel)"
proof (induction n)
  case 0
  show ?case by simp
next
  case (Suc n)
  have IH1: "\<And>cs. 2 * length cs < n \<Longrightarrow> scan_once n cs \<noteq> Inl NoFuel"
    and IH2: "\<And>acc cs. 2 * length cs + 1 < n \<Longrightarrow> JSONObject n acc cs \<noteq> Inl NoFuel"
    and IH3: "\<And>acc cs. 2 * length cs + 1 < n \<Longrightarrow> JSONArray n acc cs \<noteq> Inl NoFuel"
    using Suc.IH by blast+
  show ?case
    using scan_once_fuel_step [OF IH2 IH3] JSONObject_fuel_step [OF IH1 IH2]
      JSONArray_fuel_step [OF IH1 IH3]
    by blast
qed

lemma json_loads_fuel: "json_loads s \<noteq> Inl RecursionError"
proof -
  have "length (skip_ws s) \<le> length s" by (rule length_dropWhile_le)
  then have "2 * length (skip_ws s) < fuel_for s" unfolding fuel_for_eq by simp
  then have "scan_once (fuel_for s) (skip_ws s) \<noteq> Inl NoFuel"
    using fuel_enough [of "fuel_for s"] by blast
  then show ?thesis
    by (auto simp: json_loads_def split: sum.splits scan_fail.splits)
qed

lemma py_in_error: "py_in f d = Inl e \<Longrightarrow> e = TypeError"
  by (cases d) auto

lemma missing_of_error: "missing_of fs d = Inl e \<Longrightarrow> e = TypeError"
  by (induction fs) (auto split: sum.splits dest: py_in_error)

lemma py_get_error: "py_get d k x = Inl e \<Longrightarrow> e = AttributeError"
  by (cases d) auto

lemma SchemaValidator_fuel: "SchemaValidator d \<noteq> Inl RecursionError"
  by (auto simp: SchemaValidator_def split: sum.splits if_splits
      dest: missing_of_error py_get_error)

lemma process_json_string_fuel: "process_json_string db raw \<noteq> Inl RecursionError"
  using json_loads_fuel [of "repaired db raw"] SchemaValidator_fuel
  by (auto simp: process_json_string_def Parser_def Let_def
      split: sum.splits error.splits if_splits)

section \<open>Claim about valid JSON\<close>

lemma is_text_key:
  assumes "is_text (map_of kvs k)"
  shows "k \<in> fst ` set kvs"
proof -
  have "map_of kvs k \<noteq> None" using assms by (cases "map_of kvs k") (auto simp: is_text_def)
  then show ?thesis by (simp add: map_of_eq_None_iff)
qed

lemma RubricSchema_valid:
  assumes "RubricSchema v"
  shows "SchemaValidator v = Inr v"
proof -
  obtain kvs where v: "v = JObject kvs"
    using assms by (cases v) (auto simp: RubricSchema_def)
  obtain rs where rs: "map_of kvs (ascii ''evaluation_rubic'') = Some (JObject rs)"
      and all: "list_all (\<lambda>f. is_text (map_of rs f)) rubic_fields"
      and t: "is_text (map_of kvs (ascii ''generation_prompt''))" "is_text (map_of kvs (ascii ''manual''))"
    using assms unfolding v RubricSchema_def
    by (auto split: option.splits json.splits)
  have "map_of kvs (ascii ''evaluation_rubic'') \<noteq> None" using rs by simp
  then have e: "ascii ''evaluation_rubic'' \<in> fst ` set kvs"
    unfolding map_of_eq_None_iff by simp
  have 1: "filter (\<lambda>f. f \<notin> fst ` set kvs) required_fields = []"
    unfolding required_fields_def using t [THEN is_text_key] e by (simp del: ascii_def)
  have "\<forall>f \<in> set rubic_fields. f \<in> fst ` set rs"
    using all by (auto simp: list_all_iff intro: is_text_key)
  then have 2: "filter (\<lambda>f. f \<notin> fst ` set rs) rubic_fields = []"
    by (simp add: filter_empty_conv)
  have 3: "missing_of rubic_fields (JObject rs) = Inr []"
    unfolding missing_of_JObject 2 ..
  show ?thesis
    unfolding v SchemaValidator_JObject 1 rs by (simp add: 3)
qed

text \<open>
  Claim C1 says that on every valid JSON text whose value satisfies the schema the call
  returns what \<open>json.loads\<close> returns.  The repairs of steps 2 and 3 are substitutions on
  the whole text and also rewrite the inside of string literals; here a full-width colon
  in a value becomes a colon, and the call returns another value than the decoder.
\<close>

theorem C1_valid_json_counterexample:
  \<open>json_loads (ascii ''{"generation_prompt":"'' @ [65306] @ ascii ''","evaluation_rubic":{"pc_rubic":"","cmp_rubic":"","slr_rubic":"","clr_rubic":"","ri_rubic":""},"manual":""}'')
     = Inr (JObject [(ascii ''generation_prompt'', JString [65306]),
              (ascii ''evaluation_rubic'',
                 JObject [(ascii ''pc_rubic'', JString []), (ascii ''cmp_rubic'', JString []),
                          (ascii ''slr_rubic'', JString []), (ascii ''clr_rubic'', JString []),
                          (ascii ''ri_rubic'', JString [])]),
              (ascii ''manual'', JString [])])
   \<and> RubricSchema (JObject [(ascii ''generation_prompt'', JString [65306]),
              (ascii ''evaluation_rubic'',
                 JObject [(ascii ''pc_rubic'', JString []), (ascii ''cmp_rubic'', JString []),
                          (ascii ''slr_rubic'', JString []), (ascii ''clr_rubic'', JString []),
                          (ascii ''ri_rubic'', JString [])]),
              (ascii ''manual'', JString [])])
   \<and> process_json_string ucd_ascii (ascii ''{"generation_prompt":"'' @ [65306] @ ascii ''","evaluation_rubic":{"pc_rubic":"","cmp_rubic":"","slr_rubic":"","clr_rubic":"","ri_rubic":""},"manual":""}'')
     = Inr (JObject [(ascii ''generation_prompt'', JString [58]),
              (ascii ''evaluation_rubic'',
                 JObject [(ascii ''pc_rubic'', JString []), (ascii ''cmp_rubic'', JString []),
                          (ascii ''slr_rubic'', JString []), (ascii ''clr_rubic'', JString []),
                          (ascii ''ri_rubic'', JString [])]),
              (ascii ''manual'', JString [])])\<close>
proof -
  let ?raw = \<open>ascii ''{"generation_prompt":"'' @ [65306] @ ascii ''","evaluation_rubic":{"pc_rubic":"","cmp_rubic":"","slr_rubic":"","clr_rubic":"","ri_rubic":""},"manual":""}''\<close>
  let ?rs = \<open>JObject [(ascii ''pc_rubic'', JString []), (ascii ''cmp_rubic'', JString []),
                          (ascii ''slr_rubic'', JString []), (ascii ''clr_rubic'', JString []),
                          (ascii ''ri_rubic'', JString [])]\<close>
  let ?v = \<open>\<lambda>c. JObject [(ascii ''generation_prompt'', JString [c]),
              (ascii ''evaluation_rubic'', ?rs), (ascii ''manual'', JString [])]\<close>
  have l: "json_loads ?raw = Inr (?v 65306)" by (simp add: loads_eval)
  have s: "RubricSchema (?v 65306)" by (simp add: RubricSchema_def is_text_def rubic_fields_def)
  have n: "TextNormalizer ?raw \<noteq> []" by (simp add: repair_eval)
  have j: "json_loads (repaired ucd_ascii ?raw) = Inr (?v 58)"
    by (simp add: repair_eval loads_eval)
  have v: "SchemaValidator (?v 58) = Inr (?v 58)" by (simp add: valid_eval)
  have p: "process_json_string ucd_ascii ?raw = Inr (?v 58)"
    unfolding process_decoded [OF n j] by (rule v)
  show ?thesis using l s p by simp
qed

text \<open>
  Claim C1, amended.  On every valid JSON text whose value satisfies the schema and whose
  trimmed text holds nothing the repairs rewrite (no doubled backslash before \<open>n\<close> or
  \<open>t\<close>, no backslash before a decimal digit, none of the eight full-width characters, no
  comma before a closing brace or bracket, no bare word between an opening brace or a
  comma and a colon, no single quote without a backslash before it), the call returns the
  value \<open>json.loads\<close> returns for that text.
\<close>

theorem C1_valid_json:
  assumes "json_loads raw = Inr v" and "RubricSchema v"
    and "\<not> repair_trigger db (py_strip raw)"
  shows "process_json_string db raw = Inr v"
proof -
  let ?t = "py_strip raw"
  obtain kvs where v: "v = JObject kvs"
    using assms(2) by (cases v) (auto simp: RubricSchema_def)
  have j: "json_loads ?t = Inr v" using assms(1) by (rule json_loads_strip)
  have ne: "?t \<noteq> []" using j by (rule json_loads_nonempty)
  have "\<not> startswith ?t 34" using j unfolding v by (rule json_loads_object_start)
  then have n: "TextNormalizer raw = ?t"
    by (simp add: TextNormalizer_def Let_def py_strip_idem)
  have r: "StructuralRepairer db (EscapeRepairer db ?t) = ?t"
    using assms(3) by (rule no_trigger_repaired)
  have n': "TextNormalizer raw \<noteq> []" unfolding n by (rule ne)
  have j': "json_loads (repaired db raw) = Inr v" unfolding n r by (rule j)
  have "process_json_string db raw = SchemaValidator v"
    using n' j' by (rule process_decoded)
  then show ?thesis using RubricSchema_valid [OF assms(2)] by simp
qed

theorem C1_valid_json_witness:
  \<open>json_loads ([32, 10] @ ascii ''{"generation_prompt": "p", "evaluation_rubic": {"pc_rubic":"a","cmp_rubic":"b","slr_rubic":"c","clr_rubic":"d","ri_rubic":"e"}, "manual":"m"}'' @ [10])
     = Inr (JObject [(ascii ''generation_prompt'', JString (ascii ''p'')),
              (ascii ''evaluation_rubic'',
                 JObject [(ascii ''pc_rubic'', JString (ascii ''a'')),
                          (ascii ''cmp_rubic'', JString (ascii ''b'')),
                          (ascii ''slr_rubic'', JString (ascii ''c'')),
                          (ascii ''clr_rubic'', JString (ascii ''d'')),
                          (ascii ''ri_rubic'', JString (ascii ''e''))]),
              (ascii ''manual'', JString (ascii ''m''))])
   \<and> process_json_string ucd_ascii ([32, 10] @ ascii ''{"generation_prompt": "p", "evaluation_rubic": {"pc_rubic":"a","cmp_rubic":"b","slr_rubic":"c","clr_rubic":"d","ri_rubic":"e"}, "manual":"m"}'' @ [10])
     = Inr (JObject [(ascii ''generation_prompt'', JString (ascii ''p'')),
              (ascii ''evaluation_rubic'',
                 JObject [(ascii ''pc_rubic'', JString (ascii ''a'')),
                          (ascii ''cmp_rubic'', JString (ascii ''b'')),
                          (ascii ''slr_rubic'', JString (ascii ''c'')),
                          (ascii ''clr_rubic'', JString (ascii ''d'')),
                          (ascii ''ri_rubic'', JString (ascii ''e''))]),
              (ascii ''manual'', JString (ascii ''m''))])\<close>
proof -
  let ?raw = \<open>[32, 10] @ ascii ''{"generation_prompt": "p", "evaluation_rubic": {"pc_rubic":"a","cmp_rubic":"b","slr_rubic":"c","clr_rubic":"d","ri_rubic":"e"}, "manual":"m"}'' @ [10]\<close>
  let ?v = \<open>JObject [(ascii ''generation_prompt'', JString (ascii ''p'')),
              (ascii ''evaluation_rubic'',
                 JObject [(ascii ''pc_rubic'', JString (ascii ''a'')),
                          (ascii ''cmp_rubic'', JString (ascii ''b'')),
                          (ascii ''slr_rubic'', JString (ascii ''c'')),
                          (ascii ''clr_rubic'', JString (ascii ''d'')),
                          (ascii ''ri_rubic'', JString (ascii ''e''))]),
              (ascii ''manual'', JString (ascii ''m''))]\<close>
  have 1: "json_loads ?raw = Inr ?v" by (simp add: loads_eval)
  have 2: "RubricSchema ?v" by (simp add: RubricSchema_def is_text_def rubic_fields_def)
  have 3: "\<not> repair_trigger ucd_ascii (py_strip ?raw)"
    by (simp add: repair_trigger_def has_backslash_digit_def has_trailing_comma_def
        has_bare_key_def has_unescaped_quote_def full_width_def sublist_code str_eval)
  show ?thesis using 1 C1_valid_json [OF 1 2 3] by simp
qed

end
